theory Spec2Isabelle
  imports Complex_Main "HOL-Library.Word" "HOL-Library.Log_Nat"
begin

unbundle bit_operations_syntax

section \<open>The non-blocking hash map of nbhashmap.c, run by one thread\<close>

text \<open>
  The development embeds \<^verbatim>\<open>nbhashmap.c\<close> as functions over an explicit machine state
  and proves properties of its sequential executions: one thread runs every operation to
  its end before the next one starts.

  Conventions of the embedding.
  \<^item> A C name with a leading underscore is written with the prefix \<open>u_\<close>:
    \<^verbatim>\<open>_putif\<close> is \<open>u_putif\<close>, the field \<^verbatim>\<open>_key\<close> is \<open>u_key\<close>.
  \<^item> \<^verbatim>\<open>unsigned int\<close> is \<open>32 word\<close>; the word-sized counter \<^verbatim>\<open>AO_t _size\<close> is
    \<open>64 word\<close> (LP64); \<^verbatim>\<open>long\<close> results are \<open>int\<close> read off with \<open>sint\<close>.
  \<^item> Every \<^verbatim>\<open>assert\<close> and \<^verbatim>\<open>fatal\<close> is the outcome \<open>Abort\<close>; so is the use of a
    table pointer that addresses no table.
  \<^item> A loop that only a write of another thread can end (the wait for a hash, for the
    block counters, for a promised table, for the promotion) is the outcome \<open>Hang\<close>, and
    so is any other loop that never ends.
  \<^item> A compare-and-swap is the comparison the hardware makes. It can fail only when
    another thread wrote the word after this thread read it; where the source re-reads
    and tries again after such a failure, the embedding stops with the outcome \<open>Raced\<close>.
  \<^item> Memory barriers and \<^verbatim>\<open>yield\<close> have no effect on one thread and are left out, as
    are the \<^verbatim>\<open>strace\<close> lines (\<^verbatim>\<open>STRACE\<close> is 0).
  \<^item> The caller's hash and equals functions are pure functions of the key pointer. The
    destructor is known by its calls only: the state keeps the list of the keys it
    received.
  \<^item> \<^verbatim>\<open>malloc\<close> always succeeds and never reuses an address: the buffers of retired
    tables stay in the heap of the model, so \<^verbatim>\<open>free_old_kvs\<close> and \<^verbatim>\<open>free_kvs2\<close>,
    which release buffers that no modelled operation reads again, have no counterpart.
\<close>

subsection \<open>Data\<close>

text \<open>A \<^verbatim>\<open>void *\<close>: the null pointer, the three marker strings, or any other address.\<close>

datatype ptr = Null | SIZED | IGNORE | DELETED | Addr nat

text \<open>A \<^verbatim>\<open>header *\<close>: 0 is the null pointer and 1 is \<^verbatim>\<open>kvs_promise\<close>.\<close>

type_synonym addr = nat

definition kvs_promise :: addr where
  "kvs_promise = 1"

record entry =
  u_key :: ptr
  u_val :: ptr
  u_hash :: "32 word"

record header =
  u_btodo :: nat
  len :: nat
  prev :: addr
  u_bdone :: nat
  kvs :: "entry list"

text \<open>
  The \<^verbatim>\<open>HashMap\<close> struct (the first six fields) together with the rest of the process
  that the code touches: the heap of table headers, the next address \<^verbatim>\<open>malloc\<close> hands
  out, the content of memory fresh from \<^verbatim>\<open>malloc\<close>, the clock, and the keys passed to
  \<^verbatim>\<open>free_func\<close> so far, oldest first.
\<close>

record machine =
  u_size :: "64 word"
  changes :: "32 word"
  u_kvs :: addr
  u_nkvs :: addr
  equals_func :: "ptr \<Rightarrow> ptr \<Rightarrow> bool"
  hash_func :: "ptr \<Rightarrow> 32 word"
  heap :: "addr \<Rightarrow> header option"
  brk :: addr
  junk :: entry
  clock :: nat
  freed :: "ptr list"

datatype error = Abort | Hang | Raced

definition INITIAL_SIZE :: "32 word" where
  "INITIAL_SIZE = 4"

definition REPROBE_LIMIT :: nat where
  "REPROBE_LIMIT = 17"

definition BLOCK_SIZE :: nat where
  "BLOCK_SIZE = 1024 * 8"

text \<open>A loop that may run forever yields \<open>None\<close>; read as an outcome, that is \<open>Hang\<close>.\<close>

definition the_result :: "(error + 'a) option \<Rightarrow> error + 'a" where
  "the_result r = (case r of None \<Rightarrow> Inl Hang | Some x \<Rightarrow> x)"

subsection \<open>Primitives\<close>

definition zero_entry :: entry where
  "zero_entry = \<lparr>u_key = Null, u_val = Null, u_hash = 0\<rparr>"

definition header_new :: "machine \<Rightarrow> 32 word \<Rightarrow> addr \<times> machine" where
  "header_new s n =
     (brk s,
      s\<lparr>heap := (heap s)(brk s \<mapsto>
           \<lparr>u_btodo = 0, len = unat n, prev = 0, u_bdone = 0,
            kvs = replicate (unat n) (junk s)\<rparr>),
        brk := Suc (brk s)\<rparr>)"

definition current_time :: "machine \<Rightarrow> nat" where
  "current_time s = clock s"

definition upd_header :: "machine \<Rightarrow> addr \<Rightarrow> (header \<Rightarrow> header) \<Rightarrow> machine" where
  "upd_header s a f =
     (case heap s a of None \<Rightarrow> s | Some h \<Rightarrow> s\<lparr>heap := (heap s)(a \<mapsto> f h)\<rparr>)"

definition upd_entry :: "machine \<Rightarrow> addr \<Rightarrow> nat \<Rightarrow> (entry \<Rightarrow> entry) \<Rightarrow> machine" where
  "upd_entry s a i f = upd_header s a (\<lambda>h. h\<lparr>kvs := (kvs h)[i := f (kvs h ! i)]\<rparr>)"

definition push_old_kvs :: "machine \<Rightarrow> addr \<Rightarrow> addr \<Rightarrow> machine" where
  "push_old_kvs s nkvs okvs =
     (let s1 = upd_header s nkvs (\<lambda>h. h\<lparr>prev := okvs\<rparr>)
      in upd_header s1 okvs (\<lambda>h. h\<lparr>u_btodo := current_time s1\<rparr>))"

text \<open>\<^verbatim>\<open>_load\<close> returns the address of slot \<open>idx\<close>; the model returns its index.\<close>

definition u_load :: "header \<Rightarrow> 32 word \<Rightarrow> error + nat" where
  "u_load h idx =
     (if \<not> 0 \<le> sint idx then Inl Abort
      else if \<not> sint idx < int (len h) then Inl Abort
      else Inr (unat idx))"

definition getkey :: "entry \<Rightarrow> ptr" where
  "getkey e = u_key e"

definition getval :: "entry \<Rightarrow> ptr" where
  "getval e = u_val e"

text \<open>The wait for a hash that a claiming thread has not written yet.\<close>

definition gethash :: "entry \<Rightarrow> error + 32 word" where
  "gethash e = (if u_hash e = 0 then Inl Hang else Inr (u_hash e))"

text \<open>\<^verbatim>\<open>cas(addr, nval, oval)\<close> on the key and on the value of slot \<open>i\<close> of table \<open>a\<close>.\<close>

definition cas_key :: "machine \<Rightarrow> addr \<Rightarrow> nat \<Rightarrow> ptr \<Rightarrow> ptr \<Rightarrow> bool \<times> machine" where
  "cas_key s a i nval oval =
     (case heap s a of
        None \<Rightarrow> (False, s)
      | Some h \<Rightarrow>
          if u_key (kvs h ! i) = oval then (True, upd_entry s a i (\<lambda>e. e\<lparr>u_key := nval\<rparr>))
          else (False, s))"

definition cas_val :: "machine \<Rightarrow> addr \<Rightarrow> nat \<Rightarrow> ptr \<Rightarrow> ptr \<Rightarrow> bool \<times> machine" where
  "cas_val s a i nval oval =
     (case heap s a of
        None \<Rightarrow> (False, s)
      | Some h \<Rightarrow>
          if u_val (kvs h ! i) = oval then (True, upd_entry s a i (\<lambda>e. e\<lparr>u_val := nval\<rparr>))
          else (False, s))"

definition cas_nkvs :: "machine \<Rightarrow> addr \<Rightarrow> addr \<Rightarrow> bool \<times> machine" where
  "cas_nkvs s nval oval = (if u_nkvs s = oval then (True, s\<lparr>u_nkvs := nval\<rparr>) else (False, s))"

definition cas_kvs :: "machine \<Rightarrow> addr \<Rightarrow> addr \<Rightarrow> bool \<times> machine" where
  "cas_kvs s nval oval = (if u_kvs s = oval then (True, s\<lparr>u_kvs := nval\<rparr>) else (False, s))"

definition free_func :: "machine \<Rightarrow> ptr \<Rightarrow> machine" where
  "free_func s k = s\<lparr>freed := freed s @ [k]\<rparr>"

definition getkvs :: "machine \<Rightarrow> addr" where
  "getkvs s = u_kvs s"

text \<open>\<^verbatim>\<open>hashmap_size\<close>: the counter read as a \<^verbatim>\<open>long\<close>, clamped at 0.\<close>

definition hashmap_size :: "machine \<Rightarrow> int" where
  "hashmap_size s = (let res = sint (u_size s) in if res < 0 then 0 else res)"

text \<open>
  \<^verbatim>\<open>_size_update\<close>, that is \<^verbatim>\<open>AO_fetch_and_add(&map->_size, n)\<close> with an \<^verbatim>\<open>int n\<close>: the
  addition wraps. (The name \<open>u_size_update\<close> belongs to the record field \<open>u_size\<close>.)
\<close>

definition size_update :: "machine \<Rightarrow> int \<Rightarrow> machine" where
  "size_update s n = s\<lparr>u_size := u_size s + word_of_int n\<rparr>"

subsection \<open>Lookup\<close>

text \<open>
  The loop of \<^verbatim>\<open>_get\<close>. Beside the outcome it returns the indices of the slots it
  loaded, in order, so that the length of a probe sequence can be stated. The counter
  \<open>reprobe_try\<close> stays below the table length and is a natural number.
\<close>

function get_loop ::
  "machine \<Rightarrow> header \<Rightarrow> ptr \<Rightarrow> 32 word \<Rightarrow> 32 word \<Rightarrow> nat \<Rightarrow> nat list \<times> (error + ptr)" where
  "get_loop s h key hash idx reprobe_try =
     (case u_load h idx of
        Inl er \<Rightarrow> ([], Inl er)
      | Inr i \<Rightarrow>
          let e = kvs h ! i; k = getkey e in
          if k = Null then ([i], Inr Null)
          else if k = SIZED then ([i], Inr SIZED)
          else (case gethash e of
                  Inl er \<Rightarrow> ([i], Inl er)
                | Inr hh \<Rightarrow>
                    if hh = hash \<and> equals_func s k key then ([i], Inr (getval e))
                    else if unat (word_of_nat (len h) :: 32 word) \<le> Suc reprobe_try
                    then ([i], Inr Null)
                    else (let r = get_loop s h key hash
                                    ((idx + 1) AND (word_of_nat (len h) - 1)) (Suc reprobe_try)
                          in (i # fst r, snd r))))"
  by pat_completeness auto
termination
  by (relation "measure (\<lambda>(s, h, key, hash, idx, t). unat (word_of_nat (len h) :: 32 word) - t)")
     auto

declare get_loop.simps [simp del]

definition get_probes :: "machine \<Rightarrow> addr \<Rightarrow> ptr \<Rightarrow> 32 word \<Rightarrow> nat list" where
  "get_probes s a key hash =
     (case heap s a of
        None \<Rightarrow> []
      | Some h \<Rightarrow> fst (get_loop s h key hash (hash AND (word_of_nat (len h) - 1)) 0))"

definition u_get :: "machine \<Rightarrow> addr \<Rightarrow> ptr \<Rightarrow> 32 word \<Rightarrow> error + ptr" where
  "u_get s a key hash =
     (case heap s a of
        None \<Rightarrow> Inl Abort
      | Some h \<Rightarrow> snd (get_loop s h key hash (hash AND (word_of_nat (len h) - 1)) 0))"

subsection \<open>Conditional update\<close>

text \<open>
  How the first loop of \<^verbatim>\<open>_putif\<close> ends: with a \<^verbatim>\<open>return\<close> of a value, with a
  \<^verbatim>\<open>break\<close> at slot \<open>i\<close> (and the flag \<open>mustfreekey\<close>), or at the reprobe limit, where
  the source returns \<^verbatim>\<open>_resize(map, kvs)\<close>.
\<close>

datatype found = Return ptr machine | Break nat bool machine | Limit

text \<open>
  The first loop of \<^verbatim>\<open>_putif\<close>: find the slot to update, or claim a new one. With
  \<open>resizing\<close> set the counter \<open>reprobe_try\<close> is not touched and nothing bounds the loop.
\<close>

partial_function (option) putif_probe ::
  "machine \<Rightarrow> bool \<Rightarrow> addr \<Rightarrow> ptr \<Rightarrow> 32 word \<Rightarrow> ptr \<Rightarrow> ptr \<Rightarrow> 32 word \<Rightarrow> nat
   \<Rightarrow> (error + found) option" where
  "putif_probe s resizing a key hash val oldval idx reprobe_try =
     (case heap s a of
        None \<Rightarrow> Some (Inl Abort)
      | Some h \<Rightarrow>
         (case u_load h idx of
            Inl er \<Rightarrow> Some (Inl er)
          | Inr i \<Rightarrow>
              let e = kvs h ! i; k = getkey e in
              if k = Null then
                (if val = Null \<and> (oldval = IGNORE \<or> oldval = Null) then
                   (if resizing then Some (Inr (Return DELETED s))
                    else (case cas_key s a i Null Null of
                            (True, s1) \<Rightarrow> Some (Inr (Return Null (free_func s1 key)))
                          | (False, s1) \<Rightarrow> Some (Inl Raced)))
                 else (case cas_key s a i key Null of
                         (True, s1) \<Rightarrow>
                           Some (Inr (Break i False (upd_entry s1 a i (\<lambda>e. e\<lparr>u_hash := hash\<rparr>))))
                       | (False, s1) \<Rightarrow> Some (Inl Raced)))
              else if k = SIZED then Some (Inr (Return SIZED s))
              else (case gethash e of
                      Inl er \<Rightarrow> Some (Inl er)
                    | Inr hh \<Rightarrow>
                        if hh = hash \<and> equals_func s k key then Some (Inr (Break i True s))
                        else if \<not> resizing \<and> REPROBE_LIMIT \<le> Suc reprobe_try
                        then Some (Inr Limit)
                        else putif_probe s resizing a key hash val oldval
                               ((idx + 1) AND (word_of_nat (len h) - 1))
                               (if resizing then reprobe_try else Suc reprobe_try))))"

text \<open>The second part of \<^verbatim>\<open>_putif\<close>: update the value of slot \<open>i\<close>.\<close>

definition putif_update ::
  "machine \<Rightarrow> bool \<Rightarrow> addr \<Rightarrow> nat \<Rightarrow> bool \<Rightarrow> ptr \<Rightarrow> ptr \<Rightarrow> ptr \<Rightarrow> error + ptr \<times> machine" where
  "putif_update s resizing a i mustfreekey key val oldval =
     (case heap s a of
        None \<Rightarrow> Inl Abort
      | Some h \<Rightarrow>
          let v = getval (kvs h ! i) in
          if v = SIZED then Inr (SIZED, s)
          else if \<not> resizing \<and> v \<noteq> Null \<and> u_nkvs s \<noteq> 0 \<and> u_nkvs s \<noteq> a then Inr (SIZED, s)
          else if \<not> resizing \<and> v \<noteq> Null \<and> u_kvs s \<noteq> a then Inr (SIZED, s)
          else if oldval \<noteq> IGNORE \<and> v \<noteq> oldval then
            (if resizing then Inl Abort else Inr (v, s))
          else (case cas_val s a i val v of
                  (False, s1) \<Rightarrow> Inl Raced
                | (True, s1) \<Rightarrow>
                    let s2 = (if \<not> resizing \<and> v = Null \<and> val \<noteq> Null
                              then size_update s1 1 else s1);
                        s3 = (if \<not> resizing \<and> v \<noteq> Null \<and> val = Null
                              then size_update s2 (- 1) else s2);
                        s4 = (if \<not> resizing then s3\<lparr>changes := changes s3 + 1\<rparr> else s3);
                        s5 = (if mustfreekey then free_func s4 key else s4)
                    in Inr (v, s5)))"

text \<open>
  \<^verbatim>\<open>_putif\<close>, with the call of \<^verbatim>\<open>_resize\<close> at the reprobe limit as the parameter
  \<open>rsz\<close>: \<^verbatim>\<open>_resize\<close> copies through \<^verbatim>\<open>_putif\<close> itself, and is defined below.
\<close>

definition putif_with ::
  "(machine \<Rightarrow> addr \<Rightarrow> error + ptr \<times> machine) \<Rightarrow> machine \<Rightarrow> bool \<Rightarrow> addr \<Rightarrow> ptr \<Rightarrow> 32 word
   \<Rightarrow> ptr \<Rightarrow> ptr \<Rightarrow> error + ptr \<times> machine" where
  "putif_with rsz s resizing a key hash val oldval =
     (case heap s a of
        None \<Rightarrow> Inl Abort
      | Some h \<Rightarrow>
          if key = Null \<or> hash = 0 then Inl Abort
          else (case the_result (putif_probe s resizing a key hash val oldval
                                   (hash AND (word_of_nat (len h) - 1)) 0) of
                  Inl er \<Rightarrow> Inl er
                | Inr (Return r s1) \<Rightarrow> Inr (r, s1)
                | Inr Limit \<Rightarrow> rsz s a
                | Inr (Break i m s1) \<Rightarrow> putif_update s1 resizing a i m key val oldval))"

text \<open>
  In resize-copy mode the reprobe limit is never reached, so the copy can call
  \<^verbatim>\<open>_putif\<close> with any function in the place of \<^verbatim>\<open>_resize\<close>.
\<close>

definition no_resize :: "machine \<Rightarrow> addr \<Rightarrow> error + ptr \<times> machine" where
  "no_resize s a = Inl Abort"

subsection \<open>Single-precision arithmetic of the resize heuristic\<close>

text \<open>
  \<^verbatim>\<open>size / (float)len < 0.3f\<close> is computed in IEEE 754 binary32 with round to nearest,
  ties to even: both operands are converted, the quotient is rounded, and the constant
  is the float nearest to 3/10. The values that occur are far from the subnormal and
  the overflow range, so rounding keeps 24 significant bits at any exponent.
\<close>

definition pow2 :: "int \<Rightarrow> rat" where
  "pow2 e = (if 0 \<le> e then 2 ^ nat e else 1 / 2 ^ nat (- e))"

text \<open>The exponent \<open>e\<close> with \<open>2^e \<le> a < 2^(e+1)\<close>, for a positive rational.\<close>

definition ilog2 :: "rat \<Rightarrow> int" where
  "ilog2 a =
     (let n = fst (quotient_of a); d = snd (quotient_of a);
          e0 = int (floorlog 2 (nat n)) - int (floorlog 2 (nat d))
      in if pow2 e0 \<le> a then e0 else e0 - 1)"

definition f32_round :: "rat \<Rightarrow> rat" where
  "f32_round q =
     (if q = 0 then 0
      else let a = \<bar>q\<bar>; e = ilog2 a; m = a * pow2 (23 - e); f = \<lfloor>m\<rfloor>; d = m - of_int f;
               m' = (if 1 / 2 < d \<or> (d = 1 / 2 \<and> odd f) then f + 1 else f)
           in sgn q * of_int m' * pow2 (e - 23))"

text \<open>A division by the float 0 gives an infinity or a NaN; only \<open>-\<infinity>\<close> is below 0.3.\<close>

definition ratio_below :: "int \<Rightarrow> 32 word \<Rightarrow> bool" where
  "ratio_below sz n =
     (if n = 0 then sz < 0
      else f32_round (f32_round (of_int sz) / f32_round (of_nat (unat n))) < f32_round (3 / 10))"

text \<open>The length of the next table, from \<^verbatim>\<open>_resize\<close>.\<close>

definition resize_len :: "32 word \<Rightarrow> int \<Rightarrow> 32 word \<Rightarrow> 32 word" where
  "resize_len chg sz n = (if n div 4 < chg \<and> ratio_below sz n then n else n * 2)"

subsection \<open>Block-wise zeroing and copying\<close>

definition bzero :: "entry list \<Rightarrow> nat \<Rightarrow> nat \<Rightarrow> entry list" where
  "bzero xs off n = take off xs @ replicate n zero_entry @ drop (off + n) xs"

definition u_zero_block :: "machine \<Rightarrow> addr \<Rightarrow> error + bool \<times> machine" where
  "u_zero_block s nkvs =
     (case heap s nkvs of
        None \<Rightarrow> Inl Abort
      | Some h \<Rightarrow>
          if len h = 0 then Inl Abort
          else let todo = 1 + (len h - 1) div BLOCK_SIZE;
                   block = u_btodo h;
                   s1 = upd_header s nkvs (\<lambda>h. h\<lparr>u_btodo := Suc (u_btodo h)\<rparr>)
               in if todo \<le> block then (if u_bdone h < todo then Inl Hang else Inr (False, s1))
                  else let blen = (if len h < block * BLOCK_SIZE + BLOCK_SIZE
                                   then len h - block * BLOCK_SIZE else BLOCK_SIZE);
                           s2 = upd_header s1 nkvs
                                  (\<lambda>h. h\<lparr>kvs := bzero (kvs h) (block * BLOCK_SIZE) blen\<rparr>);
                           bdone = u_bdone h;
                           s3 = upd_header s2 nkvs (\<lambda>h. h\<lparr>u_bdone := Suc (u_bdone h)\<rparr>)
                       in if todo \<le> bdone then Inr (False, s3) else Inr (True, s3))"

text \<open>The body of the \<^verbatim>\<open>for\<close> loop of \<^verbatim>\<open>_copy_block\<close>: move slot \<open>i\<close> of the old table.\<close>

definition copy_slot :: "machine \<Rightarrow> addr \<Rightarrow> addr \<Rightarrow> nat \<Rightarrow> error + machine" where
  "copy_slot s okvs nkvs i =
     (case heap s okvs of
        None \<Rightarrow> Inl Abort
      | Some h \<Rightarrow>
         (case u_load h (word_of_nat i) of
            Inl er \<Rightarrow> Inl er
          | Inr j \<Rightarrow>
              let e = kvs h ! j; k = getkey e in
              if k \<noteq> Null then
                (let old = getval e in
                 case cas_val s okvs j SIZED old of
                   (False, s1) \<Rightarrow> Inl Raced
                 | (True, s1) \<Rightarrow>
                    (case gethash e of
                       Inl er \<Rightarrow> Inl er
                     | Inr hh \<Rightarrow>
                        (case putif_with no_resize s1 True nkvs k hh old Null of
                           Inl er \<Rightarrow> Inl er
                         | Inr (r, s2) \<Rightarrow>
                             if r = DELETED then
                               (case cas_key s2 okvs j SIZED k of
                                  (False, s3) \<Rightarrow> Inl Abort
                                | (True, s3) \<Rightarrow> Inr (free_func s3 k))
                             else Inr s2)))
              else (case cas_key s okvs j SIZED Null of
                      (False, s1) \<Rightarrow> Inl Raced
                    | (True, s1) \<Rightarrow> Inr s1)))"

fun copy_slots :: "machine \<Rightarrow> addr \<Rightarrow> addr \<Rightarrow> nat list \<Rightarrow> error + machine" where
  "copy_slots s okvs nkvs [] = Inr s"
| "copy_slots s okvs nkvs (i # is) =
     (case copy_slot s okvs nkvs i of
        Inl er \<Rightarrow> Inl er
      | Inr s1 \<Rightarrow> copy_slots s1 okvs nkvs is)"

definition u_copy_block :: "machine \<Rightarrow> addr \<Rightarrow> addr \<Rightarrow> error + bool \<times> machine" where
  "u_copy_block s okvs nkvs =
     (if okvs = 0 \<or> nkvs = 0 \<or> nkvs = kvs_promise then Inl Abort
      else case heap s okvs of
        None \<Rightarrow> Inl Abort
      | Some h \<Rightarrow>
          if len h = 0 then Inl Abort
          else let todo = 1 + (len h - 1) div BLOCK_SIZE;
                   block = u_btodo h;
                   s1 = upd_header s okvs (\<lambda>h. h\<lparr>u_btodo := Suc (u_btodo h)\<rparr>)
               in if todo \<le> block then (if u_bdone h < todo then Inl Hang else Inr (False, s1))
                  else let blen = (if len h < block * BLOCK_SIZE + BLOCK_SIZE
                                   then len h - block * BLOCK_SIZE else BLOCK_SIZE)
                       in case copy_slots s1 okvs nkvs
                                 [block * BLOCK_SIZE ..< block * BLOCK_SIZE + blen] of
                            Inl er \<Rightarrow> Inl er
                          | Inr s2 \<Rightarrow>
                             (case heap s2 okvs of
                                None \<Rightarrow> Inl Abort
                              | Some h2 \<Rightarrow>
                                  let bdone = u_bdone h2;
                                      s3 = upd_header s2 okvs
                                             (\<lambda>h. h\<lparr>u_bdone := Suc (u_bdone h)\<rparr>)
                                  in if todo \<le> bdone then Inr (False, s3) else Inr (True, s3)))"

text \<open>
  \<^verbatim>\<open>while (g && _zero_block(nkvs));\<close> and \<^verbatim>\<open>while (g && _copy_block(map, okvs, nkvs));\<close>
  where the guard \<open>g\<close> is absent in \<^verbatim>\<open>_resize\<close> and is \<^verbatim>\<open>map->_kvs == okvs\<close> in
  \<^verbatim>\<open>_help_resize\<close>.
\<close>

partial_function (option) zero_loop ::
  "(machine \<Rightarrow> bool) \<Rightarrow> machine \<Rightarrow> addr \<Rightarrow> (error + machine) option" where
  "zero_loop g s nkvs =
     (if \<not> g s then Some (Inr s)
      else case u_zero_block s nkvs of
             Inl er \<Rightarrow> Some (Inl er)
           | Inr (again, s1) \<Rightarrow> if again then zero_loop g s1 nkvs else Some (Inr s1))"

partial_function (option) copy_loop ::
  "(machine \<Rightarrow> bool) \<Rightarrow> machine \<Rightarrow> addr \<Rightarrow> addr \<Rightarrow> (error + machine) option" where
  "copy_loop g s okvs nkvs =
     (if \<not> g s then Some (Inr s)
      else case u_copy_block s okvs nkvs of
             Inl er \<Rightarrow> Some (Inl er)
           | Inr (again, s1) \<Rightarrow> if again then copy_loop g s1 okvs nkvs else Some (Inr s1))"

subsection \<open>The resize coordinator\<close>

definition u_resize :: "machine \<Rightarrow> addr \<Rightarrow> error + ptr \<times> machine" where
  "u_resize s okvs =
     (if u_nkvs s \<noteq> 0 then Inr (SIZED, s)
      else if u_kvs s \<noteq> okvs then Inr (SIZED, s)
      else case cas_nkvs s kvs_promise 0 of
        (False, s1) \<Rightarrow> Inr (SIZED, s1)
      | (True, s1) \<Rightarrow>
          if u_kvs s1 \<noteq> okvs then
            (case cas_nkvs s1 0 kvs_promise of
               (False, s2) \<Rightarrow> Inl Abort
             | (True, s2) \<Rightarrow> Inr (SIZED, s2))
          else case heap s1 okvs of
            None \<Rightarrow> Inl Abort
          | Some oh \<Rightarrow>
              let sz = sint (word_of_int (hashmap_size s1) :: 32 word);
                  n = (word_of_nat (len oh) :: 32 word);
                  al = header_new s1 (resize_len (changes s1) sz n);
                  nkvs = fst al;
                  s2 = snd al
              in case heap s2 nkvs of
                   None \<Rightarrow> Inl Abort
                 | Some nh \<Rightarrow>
                     if len nh = 0 then Inl Abort
                     else let s3 = upd_header s2 okvs (\<lambda>h. h\<lparr>u_btodo := 0, u_bdone := 0\<rparr>);
                              s4 = s3\<lparr>u_nkvs := nkvs\<rparr>
                          in case the_result (zero_loop (\<lambda>_. True) s4 nkvs) of
                               Inl er \<Rightarrow> Inl er
                             | Inr s5 \<Rightarrow>
                                (case the_result (copy_loop (\<lambda>_. True) s5 okvs nkvs) of
                                   Inl er \<Rightarrow> Inl er
                                 | Inr s6 \<Rightarrow>
                                    let s7 = push_old_kvs s6 nkvs okvs in
                                    case cas_kvs s7 nkvs okvs of
                                      (False, s8) \<Rightarrow> Inl Abort
                                    | (True, s8) \<Rightarrow>
                                       (case cas_nkvs s8 0 nkvs of
                                          (False, s9) \<Rightarrow> Inl Abort
                                        | (True, s9) \<Rightarrow> Inr (SIZED, s9\<lparr>changes := 0\<rparr>))))"

definition u_putif ::
  "machine \<Rightarrow> bool \<Rightarrow> addr \<Rightarrow> ptr \<Rightarrow> 32 word \<Rightarrow> ptr \<Rightarrow> ptr \<Rightarrow> error + ptr \<times> machine" where
  "u_putif = putif_with u_resize"

definition u_help_resize :: "machine \<Rightarrow> addr \<Rightarrow> error + machine" where
  "u_help_resize s okvs =
     (if u_kvs s \<noteq> okvs then Inr s
      else if u_nkvs s = 0 then
        (case u_resize s okvs of Inl er \<Rightarrow> Inl er | Inr (r, s1) \<Rightarrow> Inr s1)
      else if u_nkvs s = kvs_promise then Inl Hang
      else case the_result (zero_loop (\<lambda>t. u_kvs t = okvs) s (u_nkvs s)) of
             Inl er \<Rightarrow> Inl er
           | Inr s1 \<Rightarrow>
              (case the_result (copy_loop (\<lambda>t. u_kvs t = okvs) s1 okvs (u_nkvs s)) of
                 Inl er \<Rightarrow> Inl er
               | Inr s2 \<Rightarrow> if u_kvs s2 = okvs then Inl Hang else Inr s2))"

subsection \<open>The public operations\<close>

definition hashmap_new :: "(ptr \<Rightarrow> ptr \<Rightarrow> bool) \<Rightarrow> (ptr \<Rightarrow> 32 word) \<Rightarrow> entry \<Rightarrow> nat \<Rightarrow> machine" where
  "hashmap_new equals hash fresh now =
     \<lparr>u_size = 0, changes = 0, u_kvs = 2, u_nkvs = 0,
      equals_func = equals, hash_func = hash,
      heap = (\<lambda>a. None)(2 \<mapsto> \<lparr>u_btodo = 0, len = unat INITIAL_SIZE, prev = 0, u_bdone = 0,
                               kvs = bzero (replicate (unat INITIAL_SIZE) fresh) 0
                                       (unat INITIAL_SIZE)\<rparr>),
      brk = 3, junk = fresh, clock = now, freed = []\<rparr>"

text \<open>The hash of a key as the operations use it: 0 is replaced by 1.\<close>

definition key_hash :: "machine \<Rightarrow> ptr \<Rightarrow> 32 word" where
  "key_hash s key = (let hash = hash_func s key in if hash = 0 then 1 else hash)"

partial_function (option) get_retry ::
  "machine \<Rightarrow> addr \<Rightarrow> ptr \<Rightarrow> 32 word \<Rightarrow> ptr \<Rightarrow> (error + ptr \<times> machine) option" where
  "get_retry s a key hash res =
     (if res = SIZED then
        (case u_help_resize s a of
           Inl er \<Rightarrow> Some (Inl er)
         | Inr s1 \<Rightarrow>
            (case u_get s1 (getkvs s1) key hash of
               Inl er \<Rightarrow> Some (Inl er)
             | Inr res1 \<Rightarrow> get_retry s1 (getkvs s1) key hash res1))
      else Some (Inr (res, s)))"

definition hashmap_get :: "machine \<Rightarrow> ptr \<Rightarrow> (error + ptr \<times> machine) option" where
  "hashmap_get s key =
     (let hash = key_hash s key; a = getkvs s in
      case u_get s a key hash of
        Inl er \<Rightarrow> Some (Inl er)
      | Inr res \<Rightarrow> get_retry s a key hash res)"

partial_function (option) putif_retry ::
  "machine \<Rightarrow> addr \<Rightarrow> ptr \<Rightarrow> 32 word \<Rightarrow> ptr \<Rightarrow> ptr \<Rightarrow> ptr \<Rightarrow> (error + ptr \<times> machine) option" where
  "putif_retry s a key hash val oldval res =
     (if res = SIZED then
        (case u_help_resize s a of
           Inl er \<Rightarrow> Some (Inl er)
         | Inr s1 \<Rightarrow>
            (case u_putif s1 False (getkvs s1) key hash val oldval of
               Inl er \<Rightarrow> Some (Inl er)
             | Inr (res1, s2) \<Rightarrow> putif_retry s2 (getkvs s1) key hash val oldval res1))
      else Some (Inr (res, s)))"

definition hashmap_putif ::
  "machine \<Rightarrow> ptr \<Rightarrow> ptr \<Rightarrow> ptr \<Rightarrow> (error + ptr \<times> machine) option" where
  "hashmap_putif s key val oldval =
     (let hash = key_hash s key; a = getkvs s in
      case u_putif s False a key hash val oldval of
        Inl er \<Rightarrow> Some (Inl er)
      | Inr (res, s1) \<Rightarrow> putif_retry s1 a key hash val oldval res)"

text \<open>
  \<^verbatim>\<open>free_kvs\<close>, the loop over the slots from the last to the first; \<open>n\<close> slots remain.
\<close>

fun free_keys :: "machine \<Rightarrow> header \<Rightarrow> nat \<Rightarrow> error + machine" where
  "free_keys s h 0 = Inr s"
| "free_keys s h (Suc i) =
     (case u_load h (word_of_nat i) of
        Inl er \<Rightarrow> Inl er
      | Inr j \<Rightarrow>
          let k = getkey (kvs h ! j) in
          if k = SIZED then Inl Abort
          else free_keys (if k \<noteq> Null then free_func s k else s) h i)"

definition free_kvs :: "machine \<Rightarrow> addr \<Rightarrow> error + machine" where
  "free_kvs s a =
     (case heap s a of
        None \<Rightarrow> Inl Abort
      | Some h \<Rightarrow>
         (case free_keys s h (len h) of
            Inl er \<Rightarrow> Inl er
          | Inr s1 \<Rightarrow> Inr (s1\<lparr>heap := (heap s1)(a := None)\<rparr>)))"

definition hashmap_free :: "machine \<Rightarrow> error + machine" where
  "hashmap_free s = free_kvs s (getkvs s)"

section \<open>Notions used to state the properties\<close>

subsection \<open>Tables and probe sequences\<close>

text \<open>
  A table as \<^verbatim>\<open>header_new\<close> makes it: \<open>len\<close> slots, \<open>len\<close> a power of two. Beyond
  \<open>2^31\<close> slots the \<^verbatim>\<open>int\<close> indices of the source would be negative.
\<close>

definition shape :: "header \<Rightarrow> bool" where
  "shape h = (length (kvs h) = len h \<and> (\<exists>k\<le>31. len h = 2 ^ k))"

text \<open>The first index of a probe sequence, and the step \<^verbatim>\<open>idx = (idx + 1) & (len - 1)\<close>.\<close>

definition home :: "header \<Rightarrow> 32 word \<Rightarrow> 32 word" where
  "home h hash = hash AND (word_of_nat (len h) - 1)"

definition nxt :: "header \<Rightarrow> 32 word \<Rightarrow> 32 word" where
  "nxt h idx = (idx + 1) AND (word_of_nat (len h) - 1)"

text \<open>The index of the slot that a probe sequence inspects after \<open>d\<close> steps.\<close>

definition pos :: "header \<Rightarrow> 32 word \<Rightarrow> nat \<Rightarrow> nat" where
  "pos h hash d = (unat hash mod len h + d) mod len h"

text \<open>
  Slot \<open>p\<close> sends a probe for \<open>key\<close> on to the next slot: it holds a key that is not
  \<^verbatim>\<open>SIZED\<close>, its hash is written, and hash or key differ from the ones looked for.
\<close>

definition skips :: "machine \<Rightarrow> header \<Rightarrow> ptr \<Rightarrow> 32 word \<Rightarrow> nat \<Rightarrow> bool" where
  "skips s h key hash p =
     (let e = kvs h ! p
      in u_key e \<noteq> Null \<and> u_key e \<noteq> SIZED \<and> u_hash e \<noteq> 0 \<and>
         \<not> (u_hash e = hash \<and> equals_func s (u_key e) key))"

subsection \<open>Sample maps\<close>

text \<open>
  Keys in the samples are addresses of strings; the strings at \<open>Addr m\<close> and \<open>Addr n\<close>
  are equal when \<open>m\<close> and \<open>n\<close> agree up to their last decimal digit, and the hash of a
  string is that common prefix.
\<close>

definition demo_equals :: "ptr \<Rightarrow> ptr \<Rightarrow> bool" where
  "demo_equals x y =
     (case x of
        Addr m \<Rightarrow> (case y of Addr n \<Rightarrow> m div 10 = n div 10 | _ \<Rightarrow> False)
      | _ \<Rightarrow> x = y)"

definition demo_hash :: "ptr \<Rightarrow> 32 word" where
  "demo_hash x = (case x of Addr m \<Rightarrow> word_of_nat (m div 10) | _ \<Rightarrow> 0)"

definition demo_junk :: entry where
  "demo_junk = \<lparr>u_key = Addr 999, u_val = Addr 999, u_hash = 77\<rparr>"

definition demo_map :: machine where
  "demo_map = hashmap_new demo_equals demo_hash demo_junk 0"

text \<open>The first table after the keys 10 and 50 were put, and after 90 and 130 as well.\<close>

definition half_table :: header where
  "half_table =
     \<lparr>u_btodo = 0, len = 4, prev = 0, u_bdone = 0,
      kvs = [\<lparr>u_key = Null, u_val = Null, u_hash = 0\<rparr>,
             \<lparr>u_key = Addr 10, u_val = Addr 1000, u_hash = 1\<rparr>,
             \<lparr>u_key = Addr 50, u_val = Addr 1001, u_hash = 5\<rparr>,
             \<lparr>u_key = Null, u_val = Null, u_hash = 0\<rparr>]\<rparr>"

definition half_map :: machine where
  "half_map = demo_map\<lparr>u_size := 2, changes := 2, heap := (\<lambda>a. None)(2 \<mapsto> half_table)\<rparr>"

definition full_table :: header where
  "full_table =
     \<lparr>u_btodo = 0, len = 4, prev = 0, u_bdone = 0,
      kvs = [\<lparr>u_key = Addr 130, u_val = Addr 1003, u_hash = 13\<rparr>,
             \<lparr>u_key = Addr 10, u_val = Addr 1000, u_hash = 1\<rparr>,
             \<lparr>u_key = Addr 50, u_val = Addr 1001, u_hash = 5\<rparr>,
             \<lparr>u_key = Addr 90, u_val = Addr 1002, u_hash = 9\<rparr>]\<rparr>"

definition full_map :: machine where
  "full_map = demo_map\<lparr>u_size := 4, changes := 4, heap := (\<lambda>a. None)(2 \<mapsto> full_table)\<rparr>"

text \<open>A run of \<^verbatim>\<open>hashmap_putif\<close> calls, each given as (key, val, oldval), with the results.\<close>

fun run_putifs :: "machine \<Rightarrow> (ptr \<times> ptr \<times> ptr) list \<Rightarrow> (error + ptr list \<times> machine) option" where
  "run_putifs s [] = Some (Inr ([], s))"
| "run_putifs s ((key, val, oldval) # ops) =
     (case hashmap_putif s key val oldval of
        None \<Rightarrow> None
      | Some (Inl er) \<Rightarrow> Some (Inl er)
      | Some (Inr (r, s1)) \<Rightarrow>
         (case run_putifs s1 ops of
            None \<Rightarrow> None
          | Some (Inl er) \<Rightarrow> Some (Inl er)
          | Some (Inr (rs, s2)) \<Rightarrow> Some (Inr (r # rs, s2))))"

declare putif_probe.simps [code]
declare zero_loop.simps [code]
declare copy_loop.simps [code]
declare get_retry.simps [code]
declare putif_retry.simps [code]

subsection \<open>Well-formed maps and their contents\<close>

definition good_funcs :: "machine \<Rightarrow> bool" where
  "good_funcs s =
     ((\<forall>x. equals_func s x x) \<and>
      (\<forall>x y. equals_func s x y \<longrightarrow> equals_func s y x) \<and>
      (\<forall>x y z. equals_func s x y \<longrightarrow> equals_func s y z \<longrightarrow> equals_func s x z) \<and>
      (\<forall>x y. equals_func s x y \<longrightarrow> hash_func s x = hash_func s y))"

definition user_ptr :: "ptr \<Rightarrow> bool" where
  "user_ptr p = (p \<noteq> SIZED \<and> p \<noteq> IGNORE \<and> p \<noteq> DELETED)"

definition slot_ok :: "machine \<Rightarrow> entry \<Rightarrow> bool" where
  "slot_ok s e =
     (if u_key e = Null then u_val e = Null
      else user_ptr (u_key e) \<and> u_hash e = key_hash s (u_key e) \<and> user_ptr (u_val e))"

definition chain_ok :: "header \<Rightarrow> bool" where
  "chain_ok h =
     (\<forall>i<len h. u_key (kvs h ! i) \<noteq> Null \<longrightarrow>
        (\<exists>d<len h. pos h (u_hash (kvs h ! i)) d = i \<and>
           (\<forall>d'<d. u_key (kvs h ! pos h (u_hash (kvs h ! i)) d') \<noteq> Null)))"

definition unique_keys :: "machine \<Rightarrow> header \<Rightarrow> bool" where
  "unique_keys s h =
     (\<forall>i<len h. \<forall>j<len h. u_key (kvs h ! i) \<noteq> Null \<longrightarrow> u_key (kvs h ! j) \<noteq> Null \<longrightarrow>
        equals_func s (u_key (kvs h ! i)) (u_key (kvs h ! j)) \<longrightarrow> i = j)"

definition table_ok :: "machine \<Rightarrow> header \<Rightarrow> bool" where
  "table_ok s h =
     (shape h \<and> (\<forall>i<len h. slot_ok s (kvs h ! i)) \<and> chain_ok h \<and> unique_keys s h)"

definition lookup :: "machine \<Rightarrow> entry list \<Rightarrow> ptr \<Rightarrow> ptr" where
  "lookup s es key =
     (case find (\<lambda>e. u_key e \<noteq> Null \<and> equals_func s (u_key e) key) es of
        None \<Rightarrow> Null
      | Some e \<Rightarrow> u_val e)"

definition live :: "entry list \<Rightarrow> nat" where
  "live es = length (filter (\<lambda>e. u_val e \<noteq> Null) es)"

text \<open>Where a probe for a key comes to rest: at a free slot or at a match.\<close>

definition rests :: "machine \<Rightarrow> header \<Rightarrow> ptr \<Rightarrow> nat \<Rightarrow> bool" where
  "rests s h key p =
     (u_key (kvs h ! p) = Null \<or> equals_func s (u_key (kvs h ! p)) key)"

definition mapping :: "machine \<Rightarrow> ptr \<Rightarrow> ptr" where
  "mapping s key = (case heap s (getkvs s) of None \<Rightarrow> Null | Some h \<Rightarrow> lookup s (kvs h) key)"

definition live_count :: "machine \<Rightarrow> nat" where
  "live_count s = (case heap s (getkvs s) of None \<Rightarrow> 0 | Some h \<Rightarrow> live (kvs h))"

definition well_formed :: "machine \<Rightarrow> bool" where
  "well_formed s =
     (good_funcs s \<and> u_nkvs s = 0 \<and> 2 \<le> u_kvs s \<and> u_kvs s < brk s \<and>
      (\<forall>a\<ge>brk s. heap s a = None) \<and>
      (\<exists>h. heap s (u_kvs s) = Some h \<and> table_ok s h \<and> u_size s = word_of_nat (live (kvs h))))"

text \<open>
  The states in the middle of a resize: the old table \<open>oh\<close> at \<open>a\<close>, the new table
  \<open>nh\<close> at the address \<open>b\<close> that was allocated last, and the destructor log \<open>fr\<close>.
\<close>

definition mid :: "machine \<Rightarrow> addr \<Rightarrow> header \<Rightarrow> addr \<Rightarrow> header \<Rightarrow> ptr list \<Rightarrow> machine" where
  "mid s a oh b nh fr = s\<lparr>u_nkvs := b, heap := (heap s)(a \<mapsto> oh, b \<mapsto> nh), brk := Suc b, freed := fr\<rparr>"

definition todo_of :: "nat \<Rightarrow> nat" where
  "todo_of n = 1 + (n - 1) div BLOCK_SIZE"

definition block_end :: "nat \<Rightarrow> nat \<Rightarrow> nat" where
  "block_end n j = min (j * BLOCK_SIZE) n"

text \<open>Zeroing.\<close>

definition zeroed :: "nat \<Rightarrow> entry list \<Rightarrow> bool" where
  "zeroed m es = (\<forall>i<m. es ! i = zero_entry)"

text \<open>
  The state of the copy when the slots below \<open>i\<close> of the old table have been moved:
  \<open>oh0\<close> is the old table as it was when the resize began.
\<close>

definition tomb :: "entry \<Rightarrow> bool" where
  "tomb e = (u_key e \<noteq> Null \<and> u_val e = Null)"

definition copying :: "machine \<Rightarrow> header \<Rightarrow> nat \<Rightarrow> header \<Rightarrow> header \<Rightarrow> ptr list \<Rightarrow> bool" where
  "copying s oh0 i oh nh fr =
     (len oh = len oh0 \<and> length (kvs oh) = len oh0 \<and>
      (\<forall>j. i \<le> j \<and> j < len oh0 \<longrightarrow> kvs oh ! j = kvs oh0 ! j) \<and>
      table_ok s nh \<and>
      (\<forall>j<len nh. u_key (kvs nh ! j) \<noteq> Null \<longrightarrow> u_val (kvs nh ! j) \<noteq> Null) \<and>
      (\<forall>k. lookup s (kvs nh) k = lookup s (take i (kvs oh0)) k) \<and>
      live (kvs nh) = live (take i (kvs oh0)) \<and>
      fr = freed s @ map u_key (filter tomb (take i (kvs oh0))))"

text \<open>What a conditional update that returns \<open>r\<close> has done to the map.\<close>

definition putif_post :: "machine \<Rightarrow> ptr \<Rightarrow> ptr \<Rightarrow> ptr \<Rightarrow> ptr \<Rightarrow> machine \<Rightarrow> bool" where
  "putif_post s key val oldval r s' =
     (r = mapping s key \<and> well_formed s' \<and>
      equals_func s' = equals_func s \<and> hash_func s' = hash_func s \<and>
      (\<forall>k. mapping s' k =
         (if equals_func s key k \<and> (oldval = IGNORE \<or> mapping s key = oldval)
          then val else mapping s k)) \<and>
      live_count s' + (if mapping s key \<noteq> Null then 1 else 0) =
        live_count s + (if mapping s' key \<noteq> Null then 1 else 0))"

text \<open>The probe for a key comes to rest, at a free slot or at a match, within the
  reprobe limit of the current table.\<close>

definition settles :: "machine \<Rightarrow> ptr \<Rightarrow> bool" where
  "settles s key =
     (case heap s (getkvs s) of
        None \<Rightarrow> False
      | Some h \<Rightarrow> (\<exists>d<REPROBE_LIMIT. rests s h key (pos h (key_hash s key) d)))"

definition slots :: "machine \<Rightarrow> nat" where
  "slots s = (case heap s (getkvs s) of None \<Rightarrow> 0 | Some h \<Rightarrow> len h)"

text \<open>The contents of the map, laid out in a table of \<open>2^31\<close> slots, still leave the probe
  for the key no rest within the reprobe limit.\<close>

definition stuck :: "machine \<Rightarrow> ptr \<Rightarrow> bool" where
  "stuck s key =
     (\<exists>t. well_formed t \<and> equals_func t = equals_func s \<and> hash_func t = hash_func s \<and>
          (\<forall>k. mapping t k = mapping s k) \<and> slots t = 2 ^ 31 \<and> \<not> settles t key)"

text \<open>The progress of repeated resizes: a table either grows, or keeps its length and
  resets the counter of changes.\<close>

definition rank :: "machine \<Rightarrow> nat" where
  "rank s =
     (case heap s (getkvs s) of
        None \<Rightarrow> 0
      | Some h \<Rightarrow> 2 * (2 ^ 32 - len h) + (if changes s = 0 then 0 else 1))"

definition mapped_keys :: "machine \<Rightarrow> ptr list" where
  "mapped_keys s =
     (case heap s (getkvs s) of
        None \<Rightarrow> []
      | Some h \<Rightarrow> map u_key (filter (\<lambda>e. u_val e \<noteq> Null) (kvs h)))"

fun apart :: "('a \<Rightarrow> 'a \<Rightarrow> bool) \<Rightarrow> 'a list \<Rightarrow> bool" where
  "apart R [] = True"
| "apart R (x # xs) = ((\<forall>y\<in>set xs. \<not> R x y) \<and> apart R xs)"

inductive reach :: "ptr set \<Rightarrow> machine \<Rightarrow> bool" where
  new: "good_funcs (hashmap_new equals hash fresh now) \<Longrightarrow>
          reach {} (hashmap_new equals hash fresh now)"
| get: "reach V s \<Longrightarrow> hashmap_get s key = Some (Inr (r, s')) \<Longrightarrow> reach V s'"
| putif: "reach V s \<Longrightarrow> key \<noteq> Null \<Longrightarrow> user_ptr key \<Longrightarrow> user_ptr val \<Longrightarrow>
          hashmap_putif s key val oldval = Some (Inr (r, s')) \<Longrightarrow> reach (insert val V) s'"





section \<open>Indices and probe sequences\<close>


lemma unat_and_len:
  "unat (w AND (word_of_nat (2 ^ k) - 1 :: 32 word)) = unat w mod 2 ^ k"
proof -
  have "(word_of_nat (2 ^ k) - 1 :: 32 word) = mask k"
    by (simp add: mask_eq_exp_minus_1)
  then have "unat (w AND (word_of_nat (2 ^ k) - 1 :: 32 word)) = unat (take_bit k w)"
    by (simp only: take_bit_eq_mask)
  also have "\<dots> = take_bit k (unat w)"
    by (rule unsigned_take_bit_eq)
  also have "\<dots> = unat w mod 2 ^ k"
    by (rule take_bit_eq_mod)
  finally show ?thesis .
qed

lemma pow_le_31: "k \<le> 31 \<Longrightarrow> (2::nat) ^ k \<le> 2147483648"
  using power_increasing[of k 31 "2::nat"] by simp

lemma unat_nxt:
  assumes "k \<le> 31" "len h = 2 ^ k" "unat idx < len h"
  shows "unat (nxt h idx) = (unat idx + 1) mod len h"
proof -
  have "unat idx + 1 < 2 ^ 32"
    using assms pow_le_31[of k] by simp
  then have "unat (idx + 1) = unat idx + 1"
    by (simp add: unat_word_ariths)
  then show ?thesis using assms(2) by (simp only: nxt_def unat_and_len)
qed

lemma u_load_ok:
  assumes "k \<le> 31" "len h = 2 ^ k" "unat idx < len h"
  shows "u_load h idx = Inr (unat idx)"
proof -
  have b: "unat idx < 2 ^ 31" using assms pow_le_31[of k] by simp
  then have "int (unat idx) < int (2 ^ 31)" by (simp only: of_nat_less_iff)
  then have "uint idx < 2 ^ 31" by simp
  moreover have "- (2 ^ 31) \<le> uint idx"
    by (rule order_trans[of _ 0]) simp_all
  ultimately have "signed_take_bit 31 (uint idx) = uint idx"
    by (rule signed_take_bit_int_eq_self[rotated])
  then have c: "sint idx = int (unat idx)" by (simp add: sint_uint)
  from assms(3) have "int (unat idx) < int (len h)" by (simp only: of_nat_less_iff)
  with c have "sint idx < int (len h)" by (simp only:)
  moreover from c have "0 \<le> sint idx" by (simp only: of_nat_0_le_iff)
  ultimately show ?thesis by (simp add: u_load_def)
qed



lemma shape_length: "shape h \<Longrightarrow> length (kvs h) = len h"
  by (simp add: shape_def)

lemma shape_len_pos: "shape h \<Longrightarrow> 0 < len h"
  by (auto simp: shape_def)

lemma shape_len_word: "shape h \<Longrightarrow> unat (word_of_nat (len h) :: 32 word) = len h"
proof -
  assume "shape h"
  then obtain k where k: "k \<le> 31" "len h = 2 ^ k" by (auto simp: shape_def)
  then have "len h < 2 ^ 32" using pow_le_31[of k] by simp
  then show ?thesis by (simp add: unat_of_nat)
qed

lemma shape_start:
  assumes "shape h"
  shows "unat (hash AND (word_of_nat (len h) - 1 :: 32 word)) = unat hash mod len h"
proof -
  from assms obtain k where k: "len h = 2 ^ k" by (auto simp: shape_def)
  show ?thesis unfolding k by (rule unat_and_len)
qed

lemma shape_nxt:
  assumes "shape h" "unat idx < len h"
  shows "unat (nxt h idx) = (unat idx + 1) mod len h"
proof -
  from assms obtain k where k: "k \<le> 31" "len h = 2 ^ k" by (auto simp: shape_def)
  from k assms(2) show ?thesis by (rule unat_nxt)
qed

lemma shape_nxt_less: "shape h \<Longrightarrow> unat idx < len h \<Longrightarrow> unat (nxt h idx) < len h"
  by (simp add: shape_nxt shape_len_pos)

lemma shape_load:
  assumes "shape h" "unat idx < len h"
  shows "u_load h idx = Inr (unat idx)"
proof -
  from assms obtain k where k: "k \<le> 31" "len h = 2 ^ k" by (auto simp: shape_def)
  from k assms(2) show ?thesis by (rule u_load_ok)
qed

lemma shape_nxt_funpow:
  "shape h \<Longrightarrow> unat idx < len h \<Longrightarrow> unat ((nxt h ^^ d) idx) = (unat idx + d) mod len h"
proof (induction d)
  case 0
  then show ?case by simp
next
  case (Suc d)
  have "unat ((nxt h ^^ d) idx) < len h"
    using Suc by (simp add: shape_len_pos)
  then have "unat (nxt h ((nxt h ^^ d) idx)) = (unat ((nxt h ^^ d) idx) + 1) mod len h"
    using Suc.prems by (simp add: shape_nxt)
  then show ?case using Suc by (simp add: mod_Suc_eq)
qed

lemma get_loop_free:
  assumes "shape h" "unat idx < len h" "u_key (kvs h ! unat idx) = Null"
  shows "get_loop s h key hash idx t = ([unat idx], Inr Null)"
  using assms by (subst get_loop.simps) (simp add: shape_load getkey_def)

lemma get_loop_sized:
  assumes "shape h" "unat idx < len h" "u_key (kvs h ! unat idx) = SIZED"
  shows "get_loop s h key hash idx t = ([unat idx], Inr SIZED)"
  using assms by (subst get_loop.simps) (simp add: shape_load getkey_def)

lemma get_loop_match:
  assumes "shape h" "unat idx < len h" "u_key (kvs h ! unat idx) \<noteq> Null"
    "u_key (kvs h ! unat idx) \<noteq> SIZED" "u_hash (kvs h ! unat idx) = hash" "hash \<noteq> 0"
    "equals_func s (u_key (kvs h ! unat idx)) key"
  shows "get_loop s h key hash idx t = ([unat idx], Inr (u_val (kvs h ! unat idx)))"
  using assms by (subst get_loop.simps) (simp add: shape_load getkey_def gethash_def getval_def)

lemma get_loop_last:
  assumes "shape h" "unat idx < len h" "skips s h key hash (unat idx)" "len h \<le> Suc t"
  shows "get_loop s h key hash idx t = ([unat idx], Inr Null)"
  using assms
  by (subst get_loop.simps)
     (auto simp: shape_load getkey_def gethash_def getval_def skips_def Let_def shape_len_word)

lemma get_loop_skip:
  assumes "shape h" "unat idx < len h" "skips s h key hash (unat idx)" "Suc t < len h"
  shows "get_loop s h key hash idx t =
           (unat idx # fst (get_loop s h key hash (nxt h idx) (Suc t)),
            snd (get_loop s h key hash (nxt h idx) (Suc t)))"
  using assms
  by (subst get_loop.simps)
     (auto simp: shape_load getkey_def gethash_def getval_def skips_def Let_def shape_len_word
        nxt_def)

lemma get_loop_skips:
  assumes "shape h" "unat idx < len h"
    "\<forall>d'<d. skips s h key hash ((unat idx + d') mod len h)" "t + d < len h"
  shows "get_loop s h key hash idx t =
           (map (\<lambda>d'. (unat idx + d') mod len h) [0..<d]
              @ fst (get_loop s h key hash ((nxt h ^^ d) idx) (t + d)),
            snd (get_loop s h key hash ((nxt h ^^ d) idx) (t + d)))"
  using assms
proof (induction d arbitrary: idx t)
  case 0
  then show ?case by simp
next
  case (Suc d)
  have sk: "skips s h key hash (unat idx)"
    using Suc.prems(3)[rule_format, of 0] Suc.prems(2) by simp
  have nl: "unat (nxt h idx) < len h"
    using Suc.prems by (simp add: shape_nxt_less)
  have "\<forall>d'<d. skips s h key hash ((unat (nxt h idx) + d') mod len h)"
  proof (intro allI impI)
    fix d' assume "d' < d"
    then have "skips s h key hash ((unat idx + Suc d') mod len h)"
      using Suc.prems(3)[rule_format, of "Suc d'"] by simp
    then show "skips s h key hash ((unat (nxt h idx) + d') mod len h)"
      using Suc.prems(1,2) by (simp add: shape_nxt mod_Suc_eq mod_add_left_eq)
  qed
  then have ih: "get_loop s h key hash (nxt h idx) (Suc t) =
           (map (\<lambda>d'. (unat (nxt h idx) + d') mod len h) [0..<d]
              @ fst (get_loop s h key hash ((nxt h ^^ d) (nxt h idx)) (Suc t + d)),
            snd (get_loop s h key hash ((nxt h ^^ d) (nxt h idx)) (Suc t + d)))"
    using Suc.prems by (intro Suc.IH) (simp_all add: nl)
  have m: "map (\<lambda>d'. (unat idx + d') mod len h) [0..<Suc d] =
        unat idx # map (\<lambda>d'. (unat (nxt h idx) + d') mod len h) [0..<d]"
  proof -
    have "[0..<Suc d] = 0 # map Suc [0..<d]"
      by (simp add: upt_conv_Cons map_Suc_upt del: upt_Suc)
    then show ?thesis
      using Suc.prems(1,2) by (simp add: shape_nxt mod_Suc_eq mod_add_left_eq comp_def del: upt_Suc)
  qed
  have "Suc t < len h" using Suc.prems by simp
  then show ?case
    using sk Suc.prems(1,2) 
    by (simp only: get_loop_skip ih m funpow_Suc_right comp_def fst_conv snd_conv append_Cons add_Suc_right add_Suc)
qed



lemma upd_entry_same:
  assumes "heap s a = Some h" "f (kvs h ! i) = kvs h ! i"
  shows "upd_entry s a i f = s"
  using assms by (simp add: upd_entry_def upd_header_def fun_upd_idem)

lemma probe_free_delete:
  assumes "heap s a = Some h" "shape h" "unat idx < len h" "u_key (kvs h ! unat idx) = Null"
    "oldval = IGNORE \<or> oldval = Null"
  shows "putif_probe s resizing a key hash Null oldval idx t =
           Some (Inr (if resizing then Return DELETED s else Return Null (free_func s key)))"
  using assms
  by (subst putif_probe.simps)
     (auto simp: shape_load getkey_def cas_key_def upd_entry_same)

lemma probe_free_claim:
  assumes "heap s a = Some h" "shape h" "unat idx < len h" "u_key (kvs h ! unat idx) = Null"
    "\<not> (val = Null \<and> (oldval = IGNORE \<or> oldval = Null))"
  shows "putif_probe s resizing a key hash val oldval idx t =
           Some (Inr (Break (unat idx) False
                  (upd_entry s a (unat idx) (\<lambda>e. e\<lparr>u_key := key, u_hash := hash\<rparr>))))"
  using assms
  by (subst putif_probe.simps)
     (auto simp: shape_load getkey_def cas_key_def upd_entry_def upd_header_def shape_length)

lemma probe_sized:
  assumes "heap s a = Some h" "shape h" "unat idx < len h" "u_key (kvs h ! unat idx) = SIZED"
  shows "putif_probe s resizing a key hash val oldval idx t = Some (Inr (Return SIZED s))"
  using assms
  by (subst putif_probe.simps) (auto simp: shape_load getkey_def)

lemma probe_match:
  assumes "heap s a = Some h" "shape h" "unat idx < len h"
    "u_key (kvs h ! unat idx) \<noteq> Null" "u_key (kvs h ! unat idx) \<noteq> SIZED"
    "u_hash (kvs h ! unat idx) = hash" "hash \<noteq> 0"
    "equals_func s (u_key (kvs h ! unat idx)) key"
  shows "putif_probe s resizing a key hash val oldval idx t =
           Some (Inr (Break (unat idx) True s))"
  using assms
  by (subst putif_probe.simps) (auto simp: shape_load getkey_def gethash_def)

lemma probe_limit:
  assumes "heap s a = Some h" "shape h" "unat idx < len h" "skips s h key hash (unat idx)"
    "REPROBE_LIMIT \<le> Suc t"
  shows "putif_probe s False a key hash val oldval idx t = Some (Inr Limit)"
  using assms
  by (subst putif_probe.simps) (auto simp: shape_load getkey_def gethash_def skips_def Let_def)

lemma probe_skip:
  assumes "heap s a = Some h" "shape h" "unat idx < len h" "skips s h key hash (unat idx)"
    "resizing \<or> Suc t < REPROBE_LIMIT"
  shows "putif_probe s resizing a key hash val oldval idx t =
           putif_probe s resizing a key hash val oldval (nxt h idx)
             (if resizing then t else Suc t)"
  using assms
  by (subst putif_probe.simps)
     (auto simp: shape_load getkey_def gethash_def skips_def Let_def nxt_def)

lemma probe_skips:
  assumes "heap s a = Some h" "shape h" "unat idx < len h"
    "\<forall>d'<d. skips s h key hash ((unat idx + d') mod len h)"
    "resizing \<or> t + d < REPROBE_LIMIT"
  shows "putif_probe s resizing a key hash val oldval idx t =
           putif_probe s resizing a key hash val oldval ((nxt h ^^ d) idx)
             (if resizing then t else t + d)"
  using assms
proof (induction d arbitrary: idx t)
  case 0
  then show ?case by simp
next
  case (Suc d)
  have sk: "skips s h key hash (unat idx)"
    using Suc.prems(4)[rule_format, of 0] Suc.prems(3) by simp
  have nl: "unat (nxt h idx) < len h"
    using Suc.prems by (simp add: shape_nxt_less)
  have sks: "\<forall>d'<d. skips s h key hash ((unat (nxt h idx) + d') mod len h)"
  proof (intro allI impI)
    fix d' assume "d' < d"
    then have "skips s h key hash ((unat idx + Suc d') mod len h)"
      using Suc.prems(4)[rule_format, of "Suc d'"] by simp
    then show "skips s h key hash ((unat (nxt h idx) + d') mod len h)"
      using Suc.prems(2,3) by (simp add: shape_nxt mod_Suc_eq mod_add_left_eq)
  qed
  have lim: "resizing \<or> Suc t < REPROBE_LIMIT" using Suc.prems(5) by auto
  have lim': "resizing \<or> (if resizing then t else Suc t) + d < REPROBE_LIMIT"
    using Suc.prems(5) by auto
  have "putif_probe s resizing a key hash val oldval idx t =
        putif_probe s resizing a key hash val oldval (nxt h idx) (if resizing then t else Suc t)"
    using Suc.prems(1,2,3) sk lim by (rule probe_skip)
  also have "\<dots> = putif_probe s resizing a key hash val oldval ((nxt h ^^ d) (nxt h idx))
             (if resizing then (if resizing then t else Suc t)
              else (if resizing then t else Suc t) + d)"
    using Suc.prems(1,2) nl sks lim' by (rule Suc.IH)
  finally show ?case by (simp add: funpow_swap1)
qed



lemma unat_home: "shape h \<Longrightarrow> unat (home h hash) = unat hash mod len h"
  by (simp add: home_def shape_start)

lemma home_less: "shape h \<Longrightarrow> unat (home h hash) < len h"
  by (simp add: unat_home shape_len_pos)

lemma unat_walk: "shape h \<Longrightarrow> unat ((nxt h ^^ d) (home h hash)) = pos h hash d"
  using shape_nxt_funpow[OF _ home_less, of h d hash] by (simp add: pos_def unat_home)

lemma pos_less: "shape h \<Longrightarrow> pos h hash d < len h"
  by (simp add: pos_def shape_len_pos)

lemma probe_from_home:
  assumes "heap s a = Some h" "shape h" "\<forall>d'<d. skips s h key hash (pos h hash d')"
    "resizing \<or> d < REPROBE_LIMIT"
  shows "putif_probe s resizing a key hash val oldval (home h hash) 0 =
           putif_probe s resizing a key hash val oldval ((nxt h ^^ d) (home h hash))
             (if resizing then 0 else d)"
proof -
  have "\<forall>d'<d. skips s h key hash ((unat (home h hash) + d') mod len h)"
    using assms(2,3) by (simp add: unat_home pos_def)
  then have "putif_probe s resizing a key hash val oldval (home h hash) 0 =
           putif_probe s resizing a key hash val oldval ((nxt h ^^ d) (home h hash))
             (if resizing then 0 else 0 + d)"
    using assms by (intro probe_skips) (simp_all add: home_less)
  then show ?thesis by simp
qed

lemma get_from_home:
  assumes "shape h" "\<forall>d'<d. skips s h key hash (pos h hash d')" "d < len h"
  shows "get_loop s h key hash (home h hash) 0 =
           (map (pos h hash) [0..<d] @ fst (get_loop s h key hash ((nxt h ^^ d) (home h hash)) d),
            snd (get_loop s h key hash ((nxt h ^^ d) (home h hash)) d))"
proof -
  have "\<forall>d'<d. skips s h key hash ((unat (home h hash) + d') mod len h)"
    using assms(1,2) by (simp add: unat_home pos_def)
  then have "get_loop s h key hash (home h hash) 0 =
           (map (\<lambda>d'. (unat (home h hash) + d') mod len h) [0..<d]
              @ fst (get_loop s h key hash ((nxt h ^^ d) (home h hash)) (0 + d)),
            snd (get_loop s h key hash ((nxt h ^^ d) (home h hash)) (0 + d)))"
    using assms by (intro get_loop_skips) (simp_all add: home_less)
  moreover have "(\<lambda>d'. (unat (home h hash) + d') mod len h) = pos h hash"
    using assms(1) by (simp add: fun_eq_iff pos_def unat_home)
  ultimately show ?thesis by simp
qed

text \<open>
  Claim C8. In a table of \<open>len\<close> slots none of which is free, \<^verbatim>\<open>SIZED\<close> or a match
  for the key (each holds a key and its written hash), \<^verbatim>\<open>_get\<close> returns 0, and it
  loads exactly \<open>len\<close> slots: the slot the hash selects first and then each following
  slot in turn, wrapping from the last slot to slot 0.
\<close>

theorem get_full_circle:
  assumes "heap s a = Some h" "shape h" "\<forall>p<len h. skips s h key hash p"
  shows "u_get s a key hash = Inr Null \<and>
         get_probes s a key hash = map (pos h hash) [0..<len h]"
proof -
  define d where "d = len h - 1"
  have dl: "d < len h" "Suc d = len h" using assms(2) by (simp_all add: d_def shape_len_pos)
  have sk: "\<forall>d'<d. skips s h key hash (pos h hash d')"
    using assms(2,3) by (simp add: pos_less)
  have last: "get_loop s h key hash ((nxt h ^^ d) (home h hash)) d = ([pos h hash d], Inr Null)"
    using get_loop_last[of h "(nxt h ^^ d) (home h hash)" s key hash d] assms(2,3) dl
    by (simp add: unat_walk pos_less)
  have "get_loop s h key hash (home h hash) 0 = (map (pos h hash) [0..<d] @ [pos h hash d], Inr Null)"
    using get_from_home[OF assms(2) sk dl(1)] last by simp
  moreover have "map (pos h hash) [0..<d] @ [pos h hash d] = map (pos h hash) [0..<len h]"
    using dl(2)[symmetric] by simp
  ultimately show ?thesis
    using assms(1) by (simp add: u_get_def get_probes_def home_def)
qed

lemma hashmap_putif_direct:
  assumes "u_putif s False (getkvs s) key (key_hash s key) val oldval = Inr (r, s')" "r \<noteq> SIZED"
  shows "hashmap_putif s key val oldval = Some (Inr (r, s'))"
  using assms by (simp add: hashmap_putif_def putif_retry.simps)

lemma hashmap_get_direct:
  assumes "u_get s (getkvs s) key (key_hash s key) = Inr r" "r \<noteq> SIZED"
  shows "hashmap_get s key = Some (Inr (r, s))"
  using assms by (simp add: hashmap_get_def get_retry.simps)

lemma resize_returns_SIZED: "u_resize s a = Inr (r, s') \<Longrightarrow> r = SIZED"
  by (auto simp: u_resize_def cas_nkvs_def cas_kvs_def Let_def
      split: if_splits option.splits sum.splits prod.splits bool.splits)

lemma probe_never_limit_aux:
  assumes "putif_probe s r a key hash val oldval idx t = Some res"
  shows "r \<longrightarrow> res \<noteq> Inr Limit"
  using assms
  by (rule putif_probe.raw_induct[rotated])
     (auto simp: Let_def split: option.splits sum.splits if_splits prod.splits bool.splits)

lemma probe_never_limit:
  "putif_probe s True a key hash val oldval idx t \<noteq> Some (Inr Limit)"
  using probe_never_limit_aux[of s True a key hash val oldval idx t "Inr Limit"] by auto

lemma putif_with_resizing:
  "putif_with rsz s True a key hash val oldval = putif_with rsz' s True a key hash val oldval"
  using probe_never_limit[of s a key hash val oldval]
  by (auto simp: putif_with_def the_result_def split: option.splits sum.splits found.splits)

lemma putif_update_mismatch:
  assumes "heap s a = Some h" "u_val (kvs h ! i) = v" "v \<noteq> SIZED" "v = Null"
    "oldval \<noteq> IGNORE" "v \<noteq> oldval"
  shows "putif_update s False a i m key val oldval = Inr (v, s)"
  using assms by (simp add: putif_update_def getval_def)

text \<open>
  Claim C9. A delete (\<open>val\<close> is 0 and \<open>oldval\<close> is \<^verbatim>\<open>IGNORE\<close> or 0) whose probe sequence
  reaches a free slot after \<open>d\<close> steps: outside resize-copy mode, with \<open>d\<close> below the
  reprobe limit, \<^verbatim>\<open>_putif\<close> returns 0 and the only change of the state is that the
  destructor has received the caller's key, and so does \<^verbatim>\<open>hashmap_putif\<close> on the current
  table; in resize-copy mode \<^verbatim>\<open>_putif\<close> returns \<^verbatim>\<open>DELETED\<close> and changes nothing.
\<close>

theorem putif_delete_absent:
  assumes "heap s a = Some h" "shape h" "key \<noteq> Null" "hash \<noteq> 0"
    "oldval = IGNORE \<or> oldval = Null"
    "\<forall>d'<d. skips s h key hash (pos h hash d')" "u_key (kvs h ! pos h hash d) = Null"
  shows "(d < REPROBE_LIMIT \<longrightarrow>
            u_putif s False a key hash Null oldval = Inr (Null, free_func s key)) \<and>
         (d < REPROBE_LIMIT \<and> a = getkvs s \<and> hash = key_hash s key \<longrightarrow>
            hashmap_putif s key Null oldval = Some (Inr (Null, free_func s key))) \<and>
         u_putif s True a key hash Null oldval = Inr (DELETED, s)"
proof -
  have stop: "putif_probe s r a key hash Null oldval ((nxt h ^^ d) (home h hash)) t =
          Some (Inr (if r then Return DELETED s else Return Null (free_func s key)))" for r t
    using assms(1,2,5,7) by (intro probe_free_delete[where h = h]) (simp_all add: unat_walk pos_less)
  have "putif_probe s True a key hash Null oldval (home h hash) 0 = Some (Inr (Return DELETED s))"
    using probe_from_home[OF assms(1,2,6), of True Null oldval] stop[of True 0] by simp
  then have copy: "u_putif s True a key hash Null oldval = Inr (DELETED, s)"
    using assms(1,3,4) by (simp add: u_putif_def putif_with_def the_result_def home_def)
  have "u_putif s False a key hash Null oldval = Inr (Null, free_func s key)"
    if "d < REPROBE_LIMIT"
  proof -
    have "putif_probe s False a key hash Null oldval (home h hash) 0 =
            Some (Inr (Return Null (free_func s key)))"
      using probe_from_home[OF assms(1,2,6), of False Null oldval] stop[of False d] that by simp
    then show ?thesis
      using assms(1,3,4) by (simp add: u_putif_def putif_with_def the_result_def home_def)
  qed
  with copy show ?thesis by (auto intro: hashmap_putif_direct)
qed



lemma upd_entry_heap:
  "heap s a = Some h \<Longrightarrow>
   heap (upd_entry s a i f) = (heap s)(a \<mapsto> h\<lparr>kvs := (kvs h)[i := f (kvs h ! i)]\<rparr>)"
  by (simp add: upd_entry_def upd_header_def)

lemma upd_entry_fields [simp]:
  "u_size (upd_entry s a i f) = u_size s"
  "changes (upd_entry s a i f) = changes s"
  "u_kvs (upd_entry s a i f) = u_kvs s"
  "u_nkvs (upd_entry s a i f) = u_nkvs s"
  "equals_func (upd_entry s a i f) = equals_func s"
  "hash_func (upd_entry s a i f) = hash_func s"
  "brk (upd_entry s a i f) = brk s"
  "junk (upd_entry s a i f) = junk s"
  "clock (upd_entry s a i f) = clock s"
  "freed (upd_entry s a i f) = freed s"
  by (simp_all add: upd_entry_def upd_header_def split: option.splits)

lemma free_before_limit:
  assumes "shape h" "\<forall>d'<d. skips s h key hash (pos h hash d')"
    "u_key (kvs h ! pos h hash d) = Null"
  shows "d < len h" and "\<forall>d'<d. pos h hash d' \<noteq> pos h hash d"
proof -
  have ne: "pos h hash d' \<noteq> pos h hash d" if "d' < d" for d'
  proof
    assume "pos h hash d' = pos h hash d"
    moreover have "u_key (kvs h ! pos h hash d') \<noteq> Null"
      using assms(2) that by (simp add: skips_def Let_def)
    ultimately show False using assms(3) by simp
  qed
  then show "\<forall>d'<d. pos h hash d' \<noteq> pos h hash d" by blast
  show "d < len h"
  proof (rule ccontr)
    assume "\<not> d < len h"
    then have "d - len h < d" "d = (d - len h) + len h"
      using assms(1) shape_len_pos[of h] by simp_all
    moreover have "pos h hash ((d - len h) + len h) = pos h hash (d - len h)"
      by (simp add: pos_def flip: add.assoc)
    ultimately show False using ne[of "d - len h"] by simp
  qed
qed

text \<open>The failed conditional update of an absent key, call by call.\<close>

lemma absent_mismatch_run:
  assumes "heap s a = Some h" "shape h" "key \<noteq> Null" "key \<noteq> SIZED" "hash \<noteq> 0"
    "equals_func s key key" "val \<noteq> Null" "oldval \<noteq> IGNORE" "oldval \<noteq> Null"
    "d < REPROBE_LIMIT" "\<forall>d'<d. skips s h key hash (pos h hash d')"
    "u_key (kvs h ! pos h hash d) = Null" "u_val (kvs h ! pos h hash d) = Null"
  shows "\<exists>s'. u_putif s False a key hash val oldval = Inr (Null, s') \<and>
           (a = getkvs s \<and> hash = key_hash s key \<longrightarrow>
              hashmap_putif s key val oldval = Some (Inr (Null, s'))) \<and>
           s' = s\<lparr>heap := (heap s)(a \<mapsto> h\<lparr>kvs := (kvs h)[pos h hash d :=
                        \<lparr>u_key = key, u_val = Null, u_hash = hash\<rparr>]\<rparr>)\<rparr> \<and>
           u_get s a key hash = Inr Null \<and> u_get s' a key hash = Inr Null \<and>
           hashmap_size s' = hashmap_size s \<and> freed s' = freed s"
proof -
  define p where "p = pos h hash d"
  define s' where "s' = upd_entry s a p (\<lambda>e. e\<lparr>u_key := key, u_hash := hash\<rparr>)"
  define h' where "h' = h\<lparr>kvs := (kvs h)[p := \<lparr>u_key = key, u_val = Null, u_hash = hash\<rparr>]\<rparr>"
  have pl: "p < len h" "p < length (kvs h)"
    using assms(2) by (simp_all add: p_def pos_less shape_length)
  have he: "(kvs h ! p)\<lparr>u_key := key, u_hash := hash\<rparr> = \<lparr>u_key = key, u_val = Null, u_hash = hash\<rparr>"
    using assms(13) by (simp add: p_def)
  then have hp: "heap s' = (heap s)(a \<mapsto> h')"
    using assms(1) by (simp add: s'_def h'_def upd_entry_heap)
  have sh': "shape h'" using assms(2) by (simp add: shape_def h'_def)
  have pos': "pos h' hash = pos h hash" by (simp add: pos_def h'_def fun_eq_iff)
  note fb = free_before_limit[OF assms(2,11,12)]
  \<comment> \<open>the call\<close>
  have stop: "putif_probe s False a key hash val oldval ((nxt h ^^ d) (home h hash)) d =
          Some (Inr (Break p False s'))"
    using probe_free_claim[of s a h "(nxt h ^^ d) (home h hash)" val oldval False key hash d]
      assms(1,2,7,12)
    by (simp add: unat_walk pos_less p_def s'_def)
  have "putif_probe s False a key hash val oldval (home h hash) 0 = Some (Inr (Break p False s'))"
    using probe_from_home[OF assms(1,2,11), of False val oldval] stop assms(10) by simp
  moreover have "putif_update s' False a p False key val oldval = Inr (Null, s')"
    using assms(8,9) pl
    by (intro putif_update_mismatch[where h = h']) (auto simp: hp h'_def)
  ultimately have call: "u_putif s False a key hash val oldval = Inr (Null, s')"
    using assms(1,3,5) by (simp add: u_putif_def putif_with_def the_result_def home_def)
  \<comment> \<open>the lookup before\<close>
  have "get_loop s h key hash ((nxt h ^^ d) (home h hash)) d = ([p], Inr Null)"
    using assms(2,12) by (intro get_loop_free[THEN trans]) (simp_all add: unat_walk pos_less p_def)
  then have "snd (get_loop s h key hash (home h hash) 0) = Inr Null"
    using get_from_home[OF assms(2,11) fb(1)] by simp
  then have g0: "u_get s a key hash = Inr Null"
    using assms(1) by (simp add: u_get_def home_def)
  \<comment> \<open>the lookup after\<close>
  have sk': "\<forall>d'<d. skips s' h' key hash (pos h' hash d')"
  proof (intro allI impI)
    fix d' assume d': "d' < d"
    then have "pos h hash d' \<noteq> p" using fb(2) by (simp add: p_def)
    then have "kvs h' ! pos h hash d' = kvs h ! pos h hash d'" by (simp add: h'_def)
    then show "skips s' h' key hash (pos h' hash d')"
      using assms(11) d' by (simp add: skips_def pos' s'_def)
  qed
  have ep: "kvs h' ! p = \<lparr>u_key = key, u_val = Null, u_hash = hash\<rparr>" "len h' = len h"
    using pl by (simp_all add: h'_def)
  have up: "unat ((nxt h' ^^ d) (home h' hash)) = p"
    using sh' by (simp add: unat_walk pos' p_def)
  have "get_loop s' h' key hash ((nxt h' ^^ d) (home h' hash)) d =
          ([unat ((nxt h' ^^ d) (home h' hash))],
           Inr (u_val (kvs h' ! unat ((nxt h' ^^ d) (home h' hash)))))"
    using sh' assms(3,4,5,6) pl
    by (intro get_loop_match) (simp_all add: up ep s'_def)
  then have "get_loop s' h' key hash ((nxt h' ^^ d) (home h' hash)) d = ([p], Inr Null)"
    by (simp add: up ep)
  then have "snd (get_loop s' h' key hash (home h' hash) 0) = Inr Null"
    using get_from_home[OF sh' sk'] fb(1) by (simp add: ep)
  then have g1: "u_get s' a key hash = Inr Null"
    by (simp add: u_get_def home_def hp)
  have "hashmap_size s' = hashmap_size s" "freed s' = freed s"
    by (simp_all add: s'_def hashmap_size_def)
  moreover have "s' = s\<lparr>heap := (heap s)(a \<mapsto> h')\<rparr>"
    using assms(1) he by (simp add: s'_def upd_entry_def upd_header_def h'_def)
  moreover have "hashmap_putif s key val oldval = Some (Inr (Null, s'))"
    if "a = getkvs s" "hash = key_hash s key"
    using call that by (auto intro: hashmap_putif_direct)
  ultimately show ?thesis using call g0 g1 by (auto simp: h'_def p_def)
qed


section \<open>Tables as finite maps\<close>

lemma key_hash_nonzero: "key_hash s key \<noteq> 0"
  by (simp add: key_hash_def Let_def)

lemma good_sym: "good_funcs s \<Longrightarrow> equals_func s x y \<Longrightarrow> equals_func s y x"
  unfolding good_funcs_def by blast

lemma good_trans: "good_funcs s \<Longrightarrow> equals_func s x y \<Longrightarrow> equals_func s y z \<Longrightarrow> equals_func s x z"
  unfolding good_funcs_def by blast

lemma good_refl: "good_funcs s \<Longrightarrow> equals_func s x x"
  unfolding good_funcs_def by blast

lemma good_hash: "good_funcs s \<Longrightarrow> equals_func s x y \<Longrightarrow> hash_func s x = hash_func s y"
  unfolding good_funcs_def by blast

lemma key_hash_equal: "good_funcs s \<Longrightarrow> equals_func s x y \<Longrightarrow> key_hash s x = key_hash s y"
  by (simp add: key_hash_def good_hash[of s x y])

lemma lookup_miss:
  assumes "\<forall>i<length es. u_key (es ! i) \<noteq> Null \<longrightarrow> \<not> equals_func s (u_key (es ! i)) key"
  shows "lookup s es key = Null"
proof -
  have "find (\<lambda>e. u_key e \<noteq> Null \<and> equals_func s (u_key e) key) es = None"
    using assms by (auto simp: find_None_iff in_set_conv_nth)
  then show ?thesis by (simp add: lookup_def)
qed

lemma lookup_hit:
  assumes "good_funcs s" "i < length es" "u_key (es ! i) \<noteq> Null" "equals_func s (u_key (es ! i)) key"
    "\<forall>i<length es. \<forall>j<length es. u_key (es ! i) \<noteq> Null \<longrightarrow> u_key (es ! j) \<noteq> Null \<longrightarrow>
        equals_func s (u_key (es ! i)) (u_key (es ! j)) \<longrightarrow> i = j"
  shows "lookup s es key = u_val (es ! i)"
proof -
  let ?P = "\<lambda>e. u_key e \<noteq> Null \<and> equals_func s (u_key e) key"
  have "?P (es ! i)" using assms by simp
  then have "\<exists>x. x \<in> set es \<and> ?P x" using assms(2) nth_mem[of i es] by blast
  then have "find ?P es \<noteq> None" by (simp only: find_None_iff) simp
  then obtain e where e: "find ?P es = Some e" by blast
  then obtain j where j: "j < length es" "e = es ! j" "?P (es ! j)"
    unfolding find_Some_iff by blast
  from j(3) have "equals_func s (u_key (es ! j)) key" by simp
  then have "equals_func s key (u_key (es ! j))"
    by (rule good_sym[OF assms(1)])
  then have "equals_func s (u_key (es ! i)) (u_key (es ! j))"
    by (rule good_trans[OF assms(1,4)])
  moreover have "u_key (es ! j) \<noteq> Null" using j(3) by simp
  ultimately have "i = j"
    using assms(5)[rule_format, OF assms(2) j(1) assms(3)] by blast
  then show ?thesis using e j by (simp add: lookup_def)
qed

lemma pos_dist:
  assumes "0 < len h" "i < len h"
  shows "pos h hash ((i + len h - unat hash mod len h) mod len h) = i"
proof -
  let ?n = "len h" and ?a = "unat hash mod len h"
  have a: "?a < ?n" using assms by simp
  have "(?a + (i + ?n - ?a) mod ?n) mod ?n = (?a + (i + ?n - ?a)) mod ?n"
    by (rule mod_add_right_eq)
  also have "\<dots> = (i + ?n) mod ?n" using a by simp
  also have "\<dots> = i" using assms by simp
  finally show ?thesis by (simp add: pos_def)
qed

lemma pos_onto:
  assumes "0 < len h" "i < len h"
  shows "\<exists>d<len h. pos h hash d = i"
  using pos_dist[OF assms, of hash] assms(1) by (intro exI[of _ "(i + len h - unat hash mod len h) mod len h"]) simp

lemma skips_iff:
  assumes "good_funcs s" "table_ok s h" "p < len h"
  shows "skips s h key (key_hash s key) p \<longleftrightarrow> \<not> rests s h key p"
proof -
  have so: "slot_ok s (kvs h ! p)" using assms by (simp add: table_ok_def)
  show ?thesis
  proof (cases "u_key (kvs h ! p) = Null")
    case True
    then show ?thesis by (simp add: skips_def rests_def)
  next
    case False
    then have "u_key (kvs h ! p) \<noteq> SIZED" "u_hash (kvs h ! p) = key_hash s (u_key (kvs h ! p))"
      using so by (simp_all add: slot_ok_def user_ptr_def)
    then show ?thesis
      using False assms(1) key_hash_equal[of s "u_key (kvs h ! p)" key]
      by (auto simp: skips_def rests_def key_hash_nonzero)
  qed
qed

lemma table_ok_funcs:
  assumes e: "equals_func s' = equals_func s" and g: "hash_func s' = hash_func s"
  shows "table_ok s' h = table_ok s h"
  unfolding table_ok_def unique_keys_def slot_ok_def key_hash_def e g by (rule refl)

lemma lookup_funcs:
  assumes e: "equals_func s' = equals_func s"
  shows "lookup s' es key = lookup s es key"
  unfolding lookup_def e by (rule refl)

lemma good_funcs_funcs:
  assumes e: "equals_func s' = equals_func s" and g: "hash_func s' = hash_func s"
  shows "good_funcs s' = good_funcs s"
  unfolding good_funcs_def e g by (rule refl)

lemma key_hash_funcs:
  assumes g: "hash_func s' = hash_func s"
  shows "key_hash s' key = key_hash s key"
  unfolding key_hash_def g by (rule refl)

lemma table_ok_unique:
  assumes "table_ok s h"
  shows "\<forall>i<length (kvs h). \<forall>j<length (kvs h). u_key (kvs h ! i) \<noteq> Null \<longrightarrow>
           u_key (kvs h ! j) \<noteq> Null \<longrightarrow>
           equals_func s (u_key (kvs h ! i)) (u_key (kvs h ! j)) \<longrightarrow> i = j"
proof -
  from assms have u: "unique_keys s h" and l: "length (kvs h) = len h"
    unfolding table_ok_def shape_def by blast+
  from u show ?thesis unfolding unique_keys_def l .
qed

lemma table_lookup_hit:
  assumes "good_funcs s" "table_ok s h" "i < len h" "u_key (kvs h ! i) \<noteq> Null"
    "equals_func s (u_key (kvs h ! i)) key"
  shows "lookup s (kvs h) key = u_val (kvs h ! i)"
proof -
  have "i < length (kvs h)" using assms(2,3) by (simp add: table_ok_def shape_def)
  then show ?thesis
    by (rule lookup_hit[OF assms(1) _ assms(4,5) table_ok_unique[OF assms(2)]])
qed

lemma table_lookup_miss:
  assumes "table_ok s h"
    "\<forall>i<len h. u_key (kvs h ! i) \<noteq> Null \<longrightarrow> \<not> equals_func s (u_key (kvs h ! i)) key"
  shows "lookup s (kvs h) key = Null"
  using assms by (intro lookup_miss) (simp add: table_ok_def shape_def)

lemma lookup_cases:
  assumes "good_funcs s" "table_ok s h"
  shows "(\<exists>i<len h. u_key (kvs h ! i) \<noteq> Null \<and> equals_func s (u_key (kvs h ! i)) key \<and>
            lookup s (kvs h) key = u_val (kvs h ! i)) \<or>
         ((\<forall>i<len h. u_key (kvs h ! i) \<noteq> Null \<longrightarrow> \<not> equals_func s (u_key (kvs h ! i)) key) \<and>
            lookup s (kvs h) key = Null)"
proof (cases "\<exists>i<len h. u_key (kvs h ! i) \<noteq> Null \<and> equals_func s (u_key (kvs h ! i)) key")
  case True
  then obtain i where i: "i < len h" "u_key (kvs h ! i) \<noteq> Null"
    "equals_func s (u_key (kvs h ! i)) key" by blast
  from table_lookup_hit[OF assms i] i show ?thesis by blast
next
  case False
  then have m: "\<forall>i<len h. u_key (kvs h ! i) \<noteq> Null \<longrightarrow> \<not> equals_func s (u_key (kvs h ! i)) key"
    by blast
  from table_lookup_miss[OF assms(2) m] m show ?thesis by blast
qed

lemma table_lookup_user:
  assumes "good_funcs s" "table_ok s h"
  shows "user_ptr (lookup s (kvs h) key)"
proof -
  from lookup_cases[OF assms, of key] show ?thesis
  proof (elim disjE exE conjE)
    fix i assume i: "i < len h" "u_key (kvs h ! i) \<noteq> Null"
      "lookup s (kvs h) key = u_val (kvs h ! i)"
    then have "slot_ok s (kvs h ! i)" using assms(2) by (simp add: table_ok_def)
    then show ?thesis using i by (simp add: slot_ok_def)
  next
    assume "lookup s (kvs h) key = Null"
    then show ?thesis by (simp add: user_ptr_def)
  qed
qed

text \<open>The first rest of a probe sequence, if it has one.\<close>

lemma first_rest:
  assumes "\<exists>d<m. rests s h key (pos h hash d)"
  obtains D where "D < m" "rests s h key (pos h hash D)" "\<forall>d'<D. \<not> rests s h key (pos h hash d')"
proof -
  let ?P = "\<lambda>d. d < m \<and> rests s h key (pos h hash d)"
  from assms have "\<exists>d. ?P d" by blast
  then obtain D where D: "?P D" "\<forall>d'<D. \<not> ?P d'"
    using exists_least_iff[of ?P] by blast
  then have "\<forall>d'<D. \<not> rests s h key (pos h hash d')" by auto
  with D that show ?thesis by blast
qed

lemma rest_free_absent:
  assumes "good_funcs s" "table_ok s h" "hash = key_hash s key"
    "\<forall>d'<D. \<not> rests s h key (pos h hash d')" "u_key (kvs h ! pos h hash D) = Null"
  shows "\<forall>i<len h. u_key (kvs h ! i) \<noteq> Null \<longrightarrow> \<not> equals_func s (u_key (kvs h ! i)) key"
proof (intro allI impI notI)
  fix i assume i: "i < len h" "u_key (kvs h ! i) \<noteq> Null" "equals_func s (u_key (kvs h ! i)) key"
  have "slot_ok s (kvs h ! i)" using assms(2) i(1) by (simp add: table_ok_def)
  then have "u_hash (kvs h ! i) = key_hash s (u_key (kvs h ! i))"
    using i(2) by (simp add: slot_ok_def)
  then have hi: "u_hash (kvs h ! i) = hash"
    using key_hash_equal[OF assms(1) i(3)] assms(3) by simp
  have "chain_ok h" using assms(2) by (simp add: table_ok_def)
  then obtain d where d: "d < len h" "pos h hash d = i"
      "\<forall>d'<d. u_key (kvs h ! pos h hash d') \<noteq> Null"
    using i(1,2) hi unfolding chain_ok_def by blast
  have "rests s h key (pos h hash d)" using d(2) i(3) by (simp add: rests_def)
  then have "\<not> d < D" using assms(4) by blast
  moreover have "d \<noteq> D" using d(2) i(2) assms(5) by auto
  moreover have "\<not> D < d" using d(3) assms(5) by blast
  ultimately show False by arith
qed

lemma live_update:
  assumes "i < length es"
  shows "live (es[i := e]) + (if u_val (es ! i) \<noteq> Null then 1 else 0) =
         live es + (if u_val e \<noteq> Null then 1 else 0)"
proof -
  have a: "es[i := e] = take i es @ e # drop (Suc i) es"
    using assms by (rule upd_conv_take_nth_drop)
  have b: "es = take i es @ es ! i # drop (Suc i) es"
    using assms by (rule id_take_nth_drop)
  have f: "live (xs @ x # ys) = live xs + (if u_val x \<noteq> Null then 1 else 0) + live ys"
    for xs ys and x :: entry
    by (simp add: live_def)
  have "live es = live (take i es @ es ! i # drop (Suc i) es)"
    by (rule arg_cong[OF b])
  moreover have "live (es[i := e]) = live (take i es @ e # drop (Suc i) es)"
    by (rule arg_cong[OF a])
  ultimately show ?thesis by (simp only: f)
qed

lemma live_le: "live es \<le> length es"
  by (simp add: live_def)

lemma get_loop_circle:
  assumes "shape h" "\<forall>p<len h. skips s h key hash p"
  shows "get_loop s h key hash (home h hash) 0 = (map (pos h hash) [0..<len h], Inr Null)"
proof -
  define d where "d = len h - 1"
  have dl: "d < len h" "Suc d = len h" using assms(1) by (simp_all add: d_def shape_len_pos)
  have sk: "\<forall>d'<d. skips s h key hash (pos h hash d')"
    using assms by (simp add: pos_less)
  have last: "get_loop s h key hash ((nxt h ^^ d) (home h hash)) d = ([pos h hash d], Inr Null)"
    using get_loop_last[of h "(nxt h ^^ d) (home h hash)" s key hash d] assms dl
    by (simp add: unat_walk pos_less)
  have "get_loop s h key hash (home h hash) 0 = (map (pos h hash) [0..<d] @ [pos h hash d], Inr Null)"
    using get_from_home[OF assms(1) sk dl(1)] last by simp
  moreover have "map (pos h hash) [0..<d] @ [pos h hash d] = map (pos h hash) [0..<len h]"
    using dl(2)[symmetric] by simp
  ultimately show ?thesis by simp
qed

lemma table_shape: "table_ok s h \<Longrightarrow> shape h"
  by (simp add: table_ok_def)

lemma table_slot: "table_ok s h \<Longrightarrow> i < len h \<Longrightarrow> slot_ok s (kvs h ! i)"
  by (simp add: table_ok_def)

lemma rests_match:
  assumes "good_funcs s" "table_ok s h" "p < len h" "rests s h key p" "u_key (kvs h ! p) \<noteq> Null"
  shows "u_key (kvs h ! p) \<noteq> SIZED" "u_hash (kvs h ! p) = key_hash s key"
    "equals_func s (u_key (kvs h ! p)) key" "lookup s (kvs h) key = u_val (kvs h ! p)"
proof -
  have so: "slot_ok s (kvs h ! p)" using assms(2,3) by (rule table_slot)
  show e: "equals_func s (u_key (kvs h ! p)) key" using assms(4,5) by (simp add: rests_def)
  show "u_key (kvs h ! p) \<noteq> SIZED" using so assms(5) by (simp add: slot_ok_def user_ptr_def)
  show "u_hash (kvs h ! p) = key_hash s key"
    using so assms(5) key_hash_equal[OF assms(1) e] by (simp add: slot_ok_def)
  show "lookup s (kvs h) key = u_val (kvs h ! p)"
    using assms(1,2,3,5) e by (rule table_lookup_hit)
qed

lemma get_lookup:
  assumes "good_funcs s" "table_ok s h"
  shows "snd (get_loop s h key (key_hash s key) (home h (key_hash s key)) 0)
           = Inr (lookup s (kvs h) key)"
proof -
  define hash where "hash = key_hash s key"
  have sh: "shape h" using assms(2) by (rule table_shape)
  show ?thesis unfolding hash_def[symmetric]
  proof (cases "\<exists>d<len h. rests s h key (pos h hash d)")
    case True
    then obtain D where D: "D < len h" "rests s h key (pos h hash D)"
      "\<forall>d'<D. \<not> rests s h key (pos h hash d')" by (rule first_rest)
    have sk: "\<forall>d'<D. skips s h key hash (pos h hash d')"
      using D(3) skips_iff[OF assms, of _ key] sh by (simp add: hash_def pos_less)
    define p where "p = pos h hash D"
    have pl: "p < len h" using sh by (simp add: p_def pos_less)
    have up: "unat ((nxt h ^^ D) (home h hash)) = p" using sh by (simp add: unat_walk p_def)
    have ul: "unat ((nxt h ^^ D) (home h hash)) < len h" using up pl by simp
    have "snd (get_loop s h key hash ((nxt h ^^ D) (home h hash)) D) = Inr (lookup s (kvs h) key)"
    proof (cases "u_key (kvs h ! p) = Null")
      case True
      then have "get_loop s h key hash ((nxt h ^^ D) (home h hash)) D = ([p], Inr Null)"
        using get_loop_free[OF sh ul, of s key hash D] by (simp add: up)
      moreover have "lookup s (kvs h) key = Null"
        using rest_free_absent[OF assms hash_def D(3)] True
        by (intro table_lookup_miss[OF assms(2)]) (simp add: p_def)
      ultimately show ?thesis by simp
    next
      case False
      note m = rests_match[OF assms pl D(2)[folded p_def] False]
      have mh: "u_hash (kvs h ! p) = hash" "hash \<noteq> 0"
        using m(2) by (simp_all add: hash_def key_hash_nonzero)
      have "get_loop s h key hash ((nxt h ^^ D) (home h hash)) D = ([p], Inr (u_val (kvs h ! p)))"
        using get_loop_match[OF sh ul, of hash s key D] False m(1,3) mh
        by (simp add: up)
      then show ?thesis using m(4) by simp
    qed
    then show "snd (get_loop s h key hash (home h hash) 0) = Inr (lookup s (kvs h) key)"
      using get_from_home[OF sh sk D(1)] by simp
  next
    case False
    have nr: "\<not> rests s h key p" if pl': "p < len h" for p
    proof -
      obtain d where "d < len h" "pos h hash d = p"
        using pos_onto[OF shape_len_pos[OF sh] pl', of hash] by blast
      then show ?thesis using False by blast
    qed
    then have "\<forall>p<len h. skips s h key hash p"
      using skips_iff[OF assms, of _ key] by (simp add: hash_def)
    then have "snd (get_loop s h key hash (home h hash) 0) = Inr Null"
      using get_loop_circle[OF sh] by simp
    moreover have "lookup s (kvs h) key = Null"
      using nr by (intro table_lookup_miss[OF assms(2)]) (simp add: rests_def)
    ultimately show "snd (get_loop s h key hash (home h hash) 0) = Inr (lookup s (kvs h) key)"
      by simp
  qed
qed

lemma free_before:
  assumes "shape h" "\<forall>d'<D. u_key (kvs h ! pos h hash d') \<noteq> Null"
    "u_key (kvs h ! pos h hash D) = Null"
  shows "D < len h" and "\<forall>d'<D. pos h hash d' \<noteq> pos h hash D"
proof -
  have ne: "pos h hash d' \<noteq> pos h hash D" if "d' < D" for d'
    using assms(2,3) that by metis
  then show "\<forall>d'<D. pos h hash d' \<noteq> pos h hash D" by blast
  show "D < len h"
  proof (rule ccontr)
    assume "\<not> D < len h"
    then have "D - len h < D" "D = (D - len h) + len h"
      using assms(1) shape_len_pos[of h] by simp_all
    moreover have "pos h hash ((D - len h) + len h) = pos h hash (D - len h)"
      by (simp add: pos_def flip: add.assoc)
    ultimately show False using ne[of "D - len h"] by simp
  qed
qed

lemma not_rests_occupied: "\<not> rests s h key p \<Longrightarrow> u_key (kvs h ! p) \<noteq> Null"
  by (auto simp: rests_def)

lemma chain_okI:
  assumes "\<And>i. i < len h \<Longrightarrow> u_key (kvs h ! i) \<noteq> Null \<Longrightarrow>
        \<exists>d<len h. pos h (u_hash (kvs h ! i)) d = i \<and>
           (\<forall>d'<d. u_key (kvs h ! pos h (u_hash (kvs h ! i)) d') \<noteq> Null)"
  shows "chain_ok h"
  unfolding chain_ok_def using assms by blast

lemma chain_okD:
  assumes "chain_ok h" "i < len h" "u_key (kvs h ! i) \<noteq> Null"
  obtains d where "d < len h" "pos h (u_hash (kvs h ! i)) d = i"
    "\<forall>d'<d. u_key (kvs h ! pos h (u_hash (kvs h ! i)) d') \<noteq> Null"
  using assms unfolding chain_ok_def by blast

lemma unique_keysD:
  assumes "unique_keys s h" "i < len h" "j < len h" "u_key (kvs h ! i) \<noteq> Null"
    "u_key (kvs h ! j) \<noteq> Null" "equals_func s (u_key (kvs h ! i)) (u_key (kvs h ! j))"
  shows "i = j"
  using assms unfolding unique_keys_def by blast

lemma unique_keysI:
  assumes "\<And>i j. i < len h \<Longrightarrow> j < len h \<Longrightarrow> u_key (kvs h ! i) \<noteq> Null \<Longrightarrow>
    u_key (kvs h ! j) \<noteq> Null \<Longrightarrow> equals_func s (u_key (kvs h ! i)) (u_key (kvs h ! j)) \<Longrightarrow> i = j"
  shows "unique_keys s h"
  unfolding unique_keys_def using assms by blast

lemma table_okI:
  assumes "shape h" "\<And>i. i < len h \<Longrightarrow> slot_ok s (kvs h ! i)" "chain_ok h" "unique_keys s h"
  shows "table_ok s h"
  unfolding table_ok_def using assms by blast

lemma table_chain: "table_ok s h \<Longrightarrow> chain_ok h"
  unfolding table_ok_def by blast

lemma table_unique: "table_ok s h \<Longrightarrow> unique_keys s h"
  unfolding table_ok_def by blast

lemma pos_kvs_update [simp]: "pos (h\<lparr>kvs := es\<rparr>) = pos h"
  by (simp add: pos_def fun_eq_iff)

text \<open>Writing the value of an occupied slot.\<close>

lemma table_ok_set_val:
  assumes "table_ok s h" "i < len h" "u_key (kvs h ! i) \<noteq> Null" "user_ptr val"
  shows "table_ok s (h\<lparr>kvs := (kvs h)[i := (kvs h ! i)\<lparr>u_val := val\<rparr>]\<rparr>)"
proof -
  define h' where "h' = h\<lparr>kvs := (kvs h)[i := (kvs h ! i)\<lparr>u_val := val\<rparr>]\<rparr>"
  have sh: "shape h" using assms(1) by (rule table_shape)
  then have il: "i < length (kvs h)" using assms(2) by (simp add: shape_length)
  have l: "len h' = len h" by (simp add: h'_def)
  have k: "u_key (kvs h' ! j) = u_key (kvs h ! j)" "u_hash (kvs h' ! j) = u_hash (kvs h ! j)" for j
    using il by (simp_all add: h'_def nth_list_update)
  have p: "pos h' = pos h" by (simp add: h'_def)
  have "table_ok s h'"
  proof (rule table_okI)
    show "shape h'" using sh by (simp add: shape_def h'_def)
    show "slot_ok s (kvs h' ! j)" if "j < len h'" for j
    proof (cases "j = i")
      case True
      have "slot_ok s (kvs h ! i)" using assms(1,2) by (rule table_slot)
      then show ?thesis using True il assms(3,4) by (simp add: h'_def slot_ok_def)
    next
      case False
      then have "kvs h' ! j = kvs h ! j" by (simp add: h'_def)
      then show ?thesis using table_slot[OF assms(1), of j] that l by simp
    qed
    show "chain_ok h'"
      using table_chain[OF assms(1)] unfolding chain_ok_def l k p .
    show "unique_keys s h'"
      using table_unique[OF assms(1)] unfolding unique_keys_def l k .
  qed
  then show ?thesis by (simp add: h'_def)
qed

lemma lookup_set_val:
  assumes "good_funcs s" "table_ok s h" "i < len h" "u_key (kvs h ! i) \<noteq> Null" "user_ptr val"
  shows "lookup s ((kvs h)[i := (kvs h ! i)\<lparr>u_val := val\<rparr>]) key' =
           (if equals_func s (u_key (kvs h ! i)) key' then val else lookup s (kvs h) key')"
proof -
  define h' where "h' = h\<lparr>kvs := (kvs h)[i := (kvs h ! i)\<lparr>u_val := val\<rparr>]\<rparr>"
  have t': "table_ok s h'" unfolding h'_def using assms(2-5) by (rule table_ok_set_val)
  have il: "i < length (kvs h)" using assms(2,3) table_shape[of s h] by (simp add: shape_length)
  have l: "len h' = len h" by (simp add: h'_def)
  have k: "u_key (kvs h' ! j) = u_key (kvs h ! j)" for j
    using il by (simp add: h'_def nth_list_update)
  have v: "u_val (kvs h' ! i) = val" "j \<noteq> i \<Longrightarrow> u_val (kvs h' ! j) = u_val (kvs h ! j)" for j
    using il by (simp_all add: h'_def)
  have "lookup s (kvs h') key' =
           (if equals_func s (u_key (kvs h ! i)) key' then val else lookup s (kvs h) key')"
  proof (cases "equals_func s (u_key (kvs h ! i)) key'")
    case True
    then have "lookup s (kvs h') key' = u_val (kvs h' ! i)"
      using assms(3,4) by (intro table_lookup_hit[OF assms(1) t']) (simp_all add: l k)
    then show ?thesis using True v by simp
  next
    case False
    from lookup_cases[OF assms(1,2), of key'] show ?thesis
    proof (elim disjE exE conjE)
      fix j assume j: "j < len h" "u_key (kvs h ! j) \<noteq> Null"
        "equals_func s (u_key (kvs h ! j)) key'" "lookup s (kvs h) key' = u_val (kvs h ! j)"
      then have "j \<noteq> i" using False by auto
      moreover have "lookup s (kvs h') key' = u_val (kvs h' ! j)"
        using j by (intro table_lookup_hit[OF assms(1) t']) (simp_all add: l k)
      ultimately show ?thesis using False j(4) v(2) by simp
    next
      assume m: "\<forall>i<len h. u_key (kvs h ! i) \<noteq> Null \<longrightarrow> \<not> equals_func s (u_key (kvs h ! i)) key'"
        "lookup s (kvs h) key' = Null"
      have "lookup s (kvs h') key' = Null"
        using m(1) by (intro table_lookup_miss[OF t']) (simp add: l k)
      then show ?thesis using False m(2) by simp
    qed
  qed
  then show ?thesis by (simp add: h'_def)
qed

text \<open>Claiming the free slot at which the probe sequence of an absent key rests.\<close>

lemma table_ok_claim:
  assumes "good_funcs s" "table_ok s h" "key \<noteq> Null" "user_ptr key" "hash = key_hash s key"
    "\<forall>d'<D. \<not> rests s h key (pos h hash d')" "u_key (kvs h ! pos h hash D) = Null"
    "user_ptr v"
  shows "table_ok s (h\<lparr>kvs := (kvs h)[pos h hash D := \<lparr>u_key = key, u_val = v, u_hash = hash\<rparr>]\<rparr>)"
proof -
  define p where "p = pos h hash D"
  define h' where "h' = h\<lparr>kvs := (kvs h)[p := \<lparr>u_key = key, u_val = v, u_hash = hash\<rparr>]\<rparr>"
  have sh: "shape h" using assms(2) by (rule table_shape)
  have pl: "p < len h" "p < length (kvs h)" using sh by (simp_all add: p_def pos_less shape_length)
  have l: "len h' = len h" by (simp add: h'_def)
  have pp: "pos h' = pos h" by (simp add: h'_def)
  have occ: "\<forall>d'<D. u_key (kvs h ! pos h hash d') \<noteq> Null"
    using assms(6) not_rests_occupied by blast
  note fb = free_before[OF sh occ assms(7)]
  have absent: "\<forall>i<len h. u_key (kvs h ! i) \<noteq> Null \<longrightarrow> \<not> equals_func s (u_key (kvs h ! i)) key"
    using assms(1,2,5,6,7) by (rule rest_free_absent)
  have new: "kvs h' ! p = \<lparr>u_key = key, u_val = v, u_hash = hash\<rparr>"
    using pl by (simp add: h'_def)
  have old: "j \<noteq> p \<Longrightarrow> kvs h' ! j = kvs h ! j" for j by (simp add: h'_def)
  have grow: "u_key (kvs h ! j) \<noteq> Null \<Longrightarrow> u_key (kvs h' ! j) \<noteq> Null" for j
    using assms(7) old[of j] by (cases "j = p") (auto simp: p_def)
  have "table_ok s h'"
  proof (rule table_okI)
    show "shape h'" using sh by (simp add: shape_def h'_def)
    show "slot_ok s (kvs h' ! j)" if "j < len h'" for j
    proof (cases "j = p")
      case True
      then show ?thesis using new assms(3,4,5,8) by (simp add: slot_ok_def)
    next
      case False
      then show ?thesis using old[of j] table_slot[OF assms(2), of j] that l by simp
    qed
    show "chain_ok h'"
    proof (rule chain_okI)
      fix j assume j: "j < len h'" "u_key (kvs h' ! j) \<noteq> Null"
      show "\<exists>d<len h'. pos h' (u_hash (kvs h' ! j)) d = j \<and>
              (\<forall>d'<d. u_key (kvs h' ! pos h' (u_hash (kvs h' ! j)) d') \<noteq> Null)"
      proof (cases "j = p")
        case True
        have "\<forall>d'<D. u_key (kvs h' ! pos h hash d') \<noteq> Null"
          using occ grow by blast
        then show ?thesis
          using True new fb(1) by (intro exI[of _ D]) (simp add: l pp p_def)
      next
        case False
        then have e: "kvs h' ! j = kvs h ! j" by (rule old)
        then have "u_key (kvs h ! j) \<noteq> Null" using j(2) by simp
        then obtain d where d: "d < len h" "pos h (u_hash (kvs h ! j)) d = j"
          "\<forall>d'<d. u_key (kvs h ! pos h (u_hash (kvs h ! j)) d') \<noteq> Null"
          using chain_okD[OF table_chain[OF assms(2)], of j] j(1) l by metis
        then have "\<forall>d'<d. u_key (kvs h' ! pos h (u_hash (kvs h ! j)) d') \<noteq> Null"
          using grow by blast
        then show ?thesis using d(1,2) by (intro exI[of _ d]) (simp add: l pp e)
      qed
    qed
    show "unique_keys s h'"
    proof (rule unique_keysI)
      fix i j assume ij: "i < len h'" "j < len h'" "u_key (kvs h' ! i) \<noteq> Null"
        "u_key (kvs h' ! j) \<noteq> Null" "equals_func s (u_key (kvs h' ! i)) (u_key (kvs h' ! j))"
      consider "i = p" "j = p" | "i = p" "j \<noteq> p" | "i \<noteq> p" "j = p" | "i \<noteq> p" "j \<noteq> p"
        by blast
      then show "i = j"
      proof cases
        case 1
        then show ?thesis by simp
      next
        case 2
        then have "equals_func s key (u_key (kvs h ! j))" "u_key (kvs h ! j) \<noteq> Null"
          using ij(4,5) new old[of j] by simp_all
        then have "equals_func s (u_key (kvs h ! j)) key" "u_key (kvs h ! j) \<noteq> Null"
          using good_sym[OF assms(1)] by blast+
        then show ?thesis using absent ij(2) l by auto
      next
        case 3
        then have "equals_func s (u_key (kvs h ! i)) key" "u_key (kvs h ! i) \<noteq> Null"
          using ij(3,5) new old[of i] by simp_all
        then show ?thesis using absent ij(1) l by auto
      next
        case 4
        then show ?thesis
          using ij old[of i] old[of j] unique_keysD[OF table_unique[OF assms(2)], of i j] l
          by simp
      qed
    qed
  qed
  then show ?thesis by (simp add: h'_def p_def)
qed

lemma lookup_claim:
  assumes "good_funcs s" "table_ok s h" "key \<noteq> Null" "user_ptr key" "hash = key_hash s key"
    "\<forall>d'<D. \<not> rests s h key (pos h hash d')" "u_key (kvs h ! pos h hash D) = Null"
    "user_ptr v"
  shows "lookup s ((kvs h)[pos h hash D := \<lparr>u_key = key, u_val = v, u_hash = hash\<rparr>]) key' =
           (if equals_func s key key' then v else lookup s (kvs h) key')"
proof -
  define p where "p = pos h hash D"
  define h' where "h' = h\<lparr>kvs := (kvs h)[p := \<lparr>u_key = key, u_val = v, u_hash = hash\<rparr>]\<rparr>"
  have t': "table_ok s h'" unfolding h'_def p_def using assms by (rule table_ok_claim)
  have sh: "shape h" using assms(2) by (rule table_shape)
  have pl: "p < len h" "p < length (kvs h)" using sh by (simp_all add: p_def pos_less shape_length)
  have l: "len h' = len h" by (simp add: h'_def)
  have absent: "\<forall>i<len h. u_key (kvs h ! i) \<noteq> Null \<longrightarrow> \<not> equals_func s (u_key (kvs h ! i)) key"
    using assms(1,2,5,6,7) by (rule rest_free_absent)
  have new: "kvs h' ! p = \<lparr>u_key = key, u_val = v, u_hash = hash\<rparr>"
    using pl by (simp add: h'_def)
  have old: "j \<noteq> p \<Longrightarrow> kvs h' ! j = kvs h ! j" for j by (simp add: h'_def)
  have "lookup s (kvs h') key' = (if equals_func s key key' then v else lookup s (kvs h) key')"
  proof (cases "equals_func s key key'")
    case True
    then have "lookup s (kvs h') key' = u_val (kvs h' ! p)"
      using pl(1) assms(3) new by (intro table_lookup_hit[OF assms(1) t']) (simp_all add: l)
    moreover have "lookup s (kvs h) key' = Null" if False
      using that by simp
    ultimately show ?thesis using True new by simp
  next
    case False
    from lookup_cases[OF assms(1,2), of key'] show ?thesis
    proof (elim disjE exE conjE)
      fix j assume j: "j < len h" "u_key (kvs h ! j) \<noteq> Null"
        "equals_func s (u_key (kvs h ! j)) key'" "lookup s (kvs h) key' = u_val (kvs h ! j)"
      then have "j \<noteq> p" using assms(7) by (auto simp: p_def)
      then have "kvs h' ! j = kvs h ! j" by (rule old)
      then have "lookup s (kvs h') key' = u_val (kvs h ! j)"
        using j table_lookup_hit[OF assms(1) t', of j key'] l by simp
      then show ?thesis using False j(4) by simp
    next
      assume m: "\<forall>i<len h. u_key (kvs h ! i) \<noteq> Null \<longrightarrow> \<not> equals_func s (u_key (kvs h ! i)) key'"
        "lookup s (kvs h) key' = Null"
      have "\<forall>i<len h'. u_key (kvs h' ! i) \<noteq> Null \<longrightarrow> \<not> equals_func s (u_key (kvs h' ! i)) key'"
      proof (intro allI impI)
        fix i assume i: "i < len h'" "u_key (kvs h' ! i) \<noteq> Null"
        show "\<not> equals_func s (u_key (kvs h' ! i)) key'"
        proof (cases "i = p")
          case True
          then show ?thesis using new False by simp
        next
          case False
          then show ?thesis using old[of i] i m(1) l by simp
        qed
      qed
      then have "lookup s (kvs h') key' = Null" by (rule table_lookup_miss[OF t'])
      then show ?thesis using False m(2) by simp
    qed
  qed
  then show ?thesis by (simp add: h'_def p_def)
qed

lemma wfD:
  assumes "well_formed s"
  obtains h where "heap s (u_kvs s) = Some h" "table_ok s h" "u_size s = word_of_nat (live (kvs h))"
    "good_funcs s" "u_nkvs s = 0" "2 \<le> u_kvs s" "u_kvs s < brk s" "\<forall>a\<ge>brk s. heap s a = None"
  using assms unfolding well_formed_def by blast

lemma wf_table_update:
  assumes "well_formed s" "table_ok s h'" "sz = word_of_nat (live (kvs h'))"
  shows "well_formed (s\<lparr>heap := (heap s)(u_kvs s \<mapsto> h'), u_size := sz, changes := c, freed := f\<rparr>)"
proof -
  let ?s' = "s\<lparr>heap := (heap s)(u_kvs s \<mapsto> h'), u_size := sz, changes := c, freed := f\<rparr>"
  from assms(1) obtain h where w: "good_funcs s" "u_nkvs s = 0" "2 \<le> u_kvs s" "u_kvs s < brk s"
    "\<forall>a\<ge>brk s. heap s a = None" by (rule wfD)
  have e: "equals_func ?s' = equals_func s" "hash_func ?s' = hash_func s" by simp_all
  have "good_funcs ?s'" using w(1) by (simp only: good_funcs_funcs[OF e])
  moreover have "table_ok ?s' h'" using assms(2) by (simp only: table_ok_funcs[OF e])
  moreover have "\<forall>a\<ge>brk ?s'. heap ?s' a = None" using w(4,5) by simp
  moreover have "heap ?s' (u_kvs ?s') = Some h'" "u_size ?s' = word_of_nat (live (kvs h'))"
    "u_nkvs ?s' = 0" "2 \<le> u_kvs ?s'" "u_kvs ?s' < brk ?s'"
    using w(2,3,4) assms(3) by simp_all
  ultimately show ?thesis unfolding well_formed_def by blast
qed

lemma mapping_table_update:
  "mapping (s\<lparr>heap := (heap s)(u_kvs s \<mapsto> h'), u_size := sz, changes := c, freed := f\<rparr>) k
     = lookup s (kvs h') k"
  by (simp add: mapping_def getkvs_def lookup_def)

lemma mapping_cur: "heap s (u_kvs s) = Some h \<Longrightarrow> mapping s k = lookup s (kvs h) k"
  by (simp add: mapping_def getkvs_def)

lemma putif_update_keep:
  assumes "heap s a = Some h" "u_val (kvs h ! i) \<noteq> SIZED" "u_nkvs s = 0" "u_kvs s = a"
    "oldval \<noteq> IGNORE" "u_val (kvs h ! i) \<noteq> oldval"
  shows "putif_update s False a i m key val oldval = Inr (u_val (kvs h ! i), s)"
  using assms by (simp add: putif_update_def getval_def)

lemma putif_update_write:
  assumes "heap s a = Some h" "u_val (kvs h ! i) \<noteq> SIZED" "u_nkvs s = 0" "u_kvs s = a"
    "oldval = IGNORE \<or> u_val (kvs h ! i) = oldval"
  shows "putif_update s False a i m key val oldval =
           Inr (u_val (kvs h ! i),
                s\<lparr>heap := (heap s)(a \<mapsto> h\<lparr>kvs := (kvs h)[i := (kvs h ! i)\<lparr>u_val := val\<rparr>]\<rparr>),
                  u_size := u_size s
                     + (if u_val (kvs h ! i) = Null \<and> val \<noteq> Null then 1 else 0)
                     - (if u_val (kvs h ! i) \<noteq> Null \<and> val = Null then 1 else 0),
                  changes := changes s + 1,
                  freed := freed s @ (if m then [key] else [])\<rparr>)"
  using assms
  by (auto simp: putif_update_def getval_def cas_val_def upd_entry_def upd_header_def
        size_update_def free_func_def Let_def)

lemma putif_copy_write:
  assumes "heap s a = Some h" "u_val (kvs h ! i) = Null"
  shows "putif_update s True a i False key val Null =
           Inr (Null, s\<lparr>heap := (heap s)(a \<mapsto> h\<lparr>kvs := (kvs h)[i := (kvs h ! i)\<lparr>u_val := val\<rparr>]\<rparr>)\<rparr>)"
  using assms
  by (auto simp: putif_update_def getval_def cas_val_def upd_entry_def upd_header_def Let_def)

lemma size_word:
  fixes n n' :: nat
  assumes "n' + (if a then 1 else 0) = n + (if b then 1 else 0)"
  shows "(word_of_nat n :: 64 word) + (if \<not> a \<and> b then 1 else 0) - (if a \<and> \<not> b then 1 else 0)
           = word_of_nat n'"
proof (cases a; cases b)
  assume "a" "\<not> b"
  then have "n = Suc n'" using assms by simp
  then show ?thesis using \<open>a\<close> \<open>\<not> b\<close> by simp
qed (use assms in auto)

lemma wf_free_func: "well_formed s \<Longrightarrow> well_formed (free_func s k)"
proof -
  assume w: "well_formed s"
  let ?s' = "free_func s k"
  have e: "equals_func ?s' = equals_func s" "hash_func ?s' = hash_func s"
    by (simp_all add: free_func_def)
  from w obtain h where h: "heap s (u_kvs s) = Some h" "table_ok s h"
    "u_size s = word_of_nat (live (kvs h))" "good_funcs s" "u_nkvs s = 0" "2 \<le> u_kvs s"
    "u_kvs s < brk s" "\<forall>a\<ge>brk s. heap s a = None" by (rule wfD)
  have "good_funcs ?s'" using h(4) by (simp only: good_funcs_funcs[OF e])
  moreover have "table_ok ?s' h" using h(2) by (simp only: table_ok_funcs[OF e])
  moreover have "heap ?s' (u_kvs ?s') = Some h" "u_size ?s' = word_of_nat (live (kvs h))"
    "u_nkvs ?s' = 0" "2 \<le> u_kvs ?s'" "u_kvs ?s' < brk ?s'" "\<forall>a\<ge>brk ?s'. heap ?s' a = None"
    using h by (simp_all add: free_func_def)
  ultimately show ?thesis unfolding well_formed_def by blast
qed

lemma mapping_free_func [simp]: "mapping (free_func s k) = mapping s"
  by (simp add: mapping_def free_func_def getkvs_def lookup_def fun_eq_iff split: option.splits)

lemma free_func_fields [simp]:
  "u_size (free_func s k) = u_size s"
  "changes (free_func s k) = changes s"
  "u_kvs (free_func s k) = u_kvs s"
  "u_nkvs (free_func s k) = u_nkvs s"
  "equals_func (free_func s k) = equals_func s"
  "hash_func (free_func s k) = hash_func s"
  "heap (free_func s k) = heap s"
  "brk (free_func s k) = brk s"
  "junk (free_func s k) = junk s"
  "clock (free_func s k) = clock s"
  "freed (free_func s k) = freed s @ [k]"
  by (simp_all add: free_func_def)

lemma absent_class:
  assumes "good_funcs s" "table_ok s h"
    "\<forall>i<len h. u_key (kvs h ! i) \<noteq> Null \<longrightarrow> \<not> equals_func s (u_key (kvs h ! i)) key"
    "equals_func s key k"
  shows "lookup s (kvs h) k = Null"
proof (rule table_lookup_miss[OF assms(2)], intro allI impI notI)
  fix i assume i: "i < len h" "u_key (kvs h ! i) \<noteq> Null" "equals_func s (u_key (kvs h ! i)) k"
  have "equals_func s k key" using assms(4) by (rule good_sym[OF assms(1)])
  then have "equals_func s (u_key (kvs h ! i)) key" by (rule good_trans[OF assms(1) i(3)])
  then show False using assms(3) i(1,2) by blast
qed

lemma match_class:
  assumes "good_funcs s" "equals_func s x key"
  shows "equals_func s x k = equals_func s key k"
proof
  assume "equals_func s x k"
  then show "equals_func s key k"
    using good_trans[OF assms(1) good_sym[OF assms(1) assms(2)]] by blast
next
  assume "equals_func s key k"
  then show "equals_func s x k" by (rule good_trans[OF assms])
qed

lemma putif_settles:
  assumes w: "well_formed s" and hh: "heap s (u_kvs s) = Some h"
    and k: "key \<noteq> Null" "user_ptr key" and v: "user_ptr val"
    and D: "D < REPROBE_LIMIT" "rests s h key (pos h (key_hash s key) D)"
      "\<forall>d'<D. \<not> rests s h key (pos h (key_hash s key) d')"
  shows "\<exists>s'. u_putif s False (u_kvs s) key (key_hash s key) val oldval = Inr (mapping s key, s') \<and>
            well_formed s' \<and> u_kvs s' = u_kvs s \<and> equals_func s' = equals_func s \<and>
            hash_func s' = hash_func s \<and>
            (\<forall>k. mapping s' k =
               (if equals_func s key k \<and> (oldval = IGNORE \<or> mapping s key = oldval)
                then val else mapping s k)) \<and>
            live_count s' + (if mapping s key \<noteq> Null then 1 else 0) =
              live_count s + (if mapping s' key \<noteq> Null then 1 else 0)"
proof -
  define a where "a = u_kvs s"
  define hash where "hash = key_hash s key"
  define p where "p = pos h hash D"
  from w hh obtain g: "good_funcs s" and t: "table_ok s h"
    and sz: "u_size s = word_of_nat (live (kvs h))" and nk: "u_nkvs s = 0"
    by (auto elim!: wfD)
  have ha: "heap s a = Some h" using hh by (simp add: a_def)
  have sh: "shape h" using t by (rule table_shape)
  have pl: "p < len h" "p < length (kvs h)" using sh by (simp_all add: p_def pos_less shape_length)
  have hz: "hash \<noteq> 0" by (simp add: hash_def key_hash_nonzero)
  have D3: "\<forall>d'<D. \<not> rests s h key (pos h hash d')" using D(3) by (simp add: hash_def)
  have sk: "\<forall>d'<D. skips s h key hash (pos h hash d')"
    using D3 skips_iff[OF g t, of _ key] sh by (simp add: hash_def pos_less)
  have up: "unat ((nxt h ^^ D) (home h hash)) = p" using sh by (simp add: unat_walk p_def)
  have ul: "unat ((nxt h ^^ D) (home h hash)) < len h" using up pl by simp
  have pre: "putif_probe s False a key hash val oldval (home h hash) 0 =
             putif_probe s False a key hash val oldval ((nxt h ^^ D) (home h hash)) D"
    using probe_from_home[OF ha sh sk, of False val oldval] D(1) by simp
  have call: "u_putif s False a key hash val oldval =
        (case the_result (putif_probe s False a key hash val oldval ((nxt h ^^ D) (home h hash)) D) of
           Inl er \<Rightarrow> Inl er
         | Inr (Return r s1) \<Rightarrow> Inr (r, s1)
         | Inr Limit \<Rightarrow> u_resize s a
         | Inr (Break i m s1) \<Rightarrow> putif_update s1 False a i m key val oldval)"
    using ha k(1) hz pre by (simp add: u_putif_def putif_with_def home_def)
  have mp: "mapping s x = lookup s (kvs h) x" for x using hh by (rule mapping_cur)
  have lc: "live_count s = live (kvs h)" using hh by (simp add: live_count_def getkvs_def)
  have kk: "equals_func s key key" using g by (rule good_refl)
  have so: "slot_ok s (kvs h ! p)" using t pl(1) by (rule table_slot)
  have goal: "\<exists>s'. u_putif s False a key hash val oldval = Inr (mapping s key, s') \<and>
            well_formed s' \<and> u_kvs s' = u_kvs s \<and> equals_func s' = equals_func s \<and>
            hash_func s' = hash_func s \<and>
            (\<forall>k. mapping s' k =
               (if equals_func s key k \<and> (oldval = IGNORE \<or> mapping s key = oldval)
                then val else mapping s k)) \<and>
            live_count s' + (if mapping s key \<noteq> Null then 1 else 0) =
              live_count s + (if mapping s' key \<noteq> Null then 1 else 0)"
  proof (cases "u_key (kvs h ! p) = Null")
    case False
    have D2: "rests s h key p" using D(2) by (simp add: p_def hash_def)
    note m = rests_match[OF g t pl(1) D2 False]
    define vv where "vv = u_val (kvs h ! p)"
    have mk: "mapping s key = vv" using m(4) by (simp add: mp vv_def)
    have "user_ptr vv" using so False by (simp add: slot_ok_def vv_def)
    then have ns: "u_val (kvs h ! p) \<noteq> SIZED" by (simp add: user_ptr_def vv_def)
    have "putif_probe s False a key hash val oldval ((nxt h ^^ D) (home h hash)) D =
            Some (Inr (Break p True s))"
      using probe_match[OF ha sh ul, of hash key False val oldval D] False m(1,3) hz
        m(2)[folded hash_def]
      by (simp add: up)
    then have c2: "u_putif s False a key hash val oldval = putif_update s False a p True key val oldval"
      using call by (simp add: the_result_def)
    show ?thesis
    proof (cases "oldval \<noteq> IGNORE \<and> vv \<noteq> oldval")
      case True
      then have "putif_update s False a p True key val oldval = Inr (vv, s)"
        using putif_update_keep[OF ha ns nk, of oldval True key val] by (simp add: a_def vv_def)
      then show ?thesis using c2 mk w True by auto
    next
      case False
      define h' where "h' = h\<lparr>kvs := (kvs h)[p := (kvs h ! p)\<lparr>u_val := val\<rparr>]\<rparr>"
      define sz' where "sz' = u_size s + (if vv = Null \<and> val \<noteq> Null then 1 else 0)
                     - (if vv \<noteq> Null \<and> val = Null then 1 else 0)"
      define s' where "s' = s\<lparr>heap := (heap s)(u_kvs s \<mapsto> h'), u_size := sz',
                  changes := changes s + 1, freed := freed s @ (if True then [key] else [])\<rparr>"
      have "putif_update s False a p True key val oldval = Inr (vv, s')"
        using putif_update_write[OF ha ns nk, of oldval True key val] False
        by (simp add: a_def vv_def s'_def sz'_def h'_def)
      then have r: "u_putif s False a key hash val oldval = Inr (mapping s key, s')"
        using c2 mk by simp
      have t': "table_ok s h'" unfolding h'_def
        using t pl(1) \<open>u_key (kvs h ! p) \<noteq> Null\<close> v by (rule table_ok_set_val)
      have lv: "live (kvs h') + (if vv \<noteq> Null then 1 else 0) = live (kvs h) + (if val \<noteq> Null then 1 else 0)"
        using live_update[OF pl(2), of "(kvs h ! p)\<lparr>u_val := val\<rparr>"] by (simp add: h'_def vv_def)
      then have "sz' = word_of_nat (live (kvs h'))"
        using size_word[of "live (kvs h')" "vv \<noteq> Null" "live (kvs h)" "val \<noteq> Null"]
        by (simp add: sz'_def sz)
      then have w': "well_formed s'" unfolding s'_def by (rule wf_table_update[OF w t'])
      have ms: "mapping s' x = (if equals_func s key x then val else mapping s x)" for x
        using lookup_set_val[OF g t pl(1) \<open>u_key (kvs h ! p) \<noteq> Null\<close> v, of x]
          match_class[OF g m(3), of x]
        by (simp add: s'_def mapping_table_update h'_def mp)
      have "live_count s' = live (kvs h')" by (simp add: live_count_def getkvs_def s'_def)
      then have "live_count s' + (if mapping s key \<noteq> Null then 1 else 0) =
              live_count s + (if mapping s' key \<noteq> Null then 1 else 0)"
        using lv ms[of key] kk mk lc by simp
      then show ?thesis using r w' False mk ms by (auto simp: s'_def)
    qed
  next
    case True
    have free: "u_key (kvs h ! pos h hash D) = Null" using True by (simp add: p_def)
    have absent: "\<forall>i<len h. u_key (kvs h ! i) \<noteq> Null \<longrightarrow> \<not> equals_func s (u_key (kvs h ! i)) key"
      using g t hash_def D3 free by (rule rest_free_absent)
    have mk: "mapping s key = Null"
      using table_lookup_miss[OF t absent] by (simp add: mp)
    have cls: "mapping s x = Null" if "equals_func s key x" for x
      using absent_class[OF g t absent that] by (simp add: mp)
    have pv: "u_val (kvs h ! p) = Null" using so True by (simp add: slot_ok_def)
    show ?thesis
    proof (cases "val = Null \<and> (oldval = IGNORE \<or> oldval = Null)")
      case del: True
      then have "putif_probe s False a key hash val oldval ((nxt h ^^ D) (home h hash)) D =
            Some (Inr (Return Null (free_func s key)))"
        using probe_free_delete[OF ha sh ul, of oldval False key hash D] True by (simp add: up)
      then have "u_putif s False a key hash val oldval = Inr (mapping s key, free_func s key)"
        using call mk by (simp add: the_result_def)
      moreover have "well_formed (free_func s key)" using w by (rule wf_free_func)
      moreover have "live_count (free_func s key) = live_count s"
        by (simp add: live_count_def getkvs_def)
      ultimately show ?thesis using del cls mk by auto
    next
      case claim: False
      define s1 where "s1 = upd_entry s a p (\<lambda>e. e\<lparr>u_key := key, u_hash := hash\<rparr>)"
      define h1 where "h1 = h\<lparr>kvs := (kvs h)[p := \<lparr>u_key = key, u_val = Null, u_hash = hash\<rparr>]\<rparr>"
      have e1: "(kvs h ! p)\<lparr>u_key := key, u_hash := hash\<rparr> = \<lparr>u_key = key, u_val = Null, u_hash = hash\<rparr>"
        using pv by simp
      have s1: "s1 = s\<lparr>heap := (heap s)(a \<mapsto> h1)\<rparr>"
        using ha e1 by (simp add: s1_def upd_entry_def upd_header_def h1_def)
      have "putif_probe s False a key hash val oldval ((nxt h ^^ D) (home h hash)) D =
            Some (Inr (Break p False s1))"
        using probe_free_claim[OF ha sh ul, of val oldval False key hash D] True claim
        by (simp add: up s1_def)
      then have c2: "u_putif s False a key hash val oldval = putif_update s1 False a p False key val oldval"
        using call by (simp add: the_result_def)
      have h1a: "heap s1 a = Some h1" by (simp add: s1)
      have v1: "u_val (kvs h1 ! p) = Null" using pl by (simp add: h1_def)
      have f1: "u_nkvs s1 = 0" "u_kvs s1 = a" using nk by (simp_all add: s1 a_def)
      show ?thesis
      proof (cases "oldval \<noteq> IGNORE \<and> oldval \<noteq> Null")
        case True
        then have "putif_update s1 False a p False key val oldval = Inr (Null, s1)"
          using putif_update_keep[OF h1a _ f1, of p oldval False key val] v1 by auto
        then have r: "u_putif s False a key hash val oldval = Inr (mapping s key, s1)"
          using c2 mk by simp
        have un: "user_ptr Null" by (simp add: user_ptr_def)
        have t1: "table_ok s h1" unfolding h1_def p_def
          using g t k hash_def D3 free un by (rule table_ok_claim)
        have l1: "live (kvs h1) = live (kvs h)"
          using live_update[OF pl(2), of "\<lparr>u_key = key, u_val = Null, u_hash = hash\<rparr>"] pv
          by (simp add: h1_def)
        then have "u_size s = word_of_nat (live (kvs h1))" using sz by simp
        then have "well_formed (s\<lparr>heap := (heap s)(u_kvs s \<mapsto> h1), u_size := u_size s,
                        changes := changes s, freed := freed s\<rparr>)"
          by (rule wf_table_update[OF w t1])
        then have w1: "well_formed s1" by (simp add: s1 a_def)
        have m1: "mapping s1 x = mapping s x" for x
        proof -
          have "mapping s1 x = lookup s (kvs h1) x"
            by (simp add: mapping_def getkvs_def s1 a_def lookup_def)
          also have "\<dots> = (if equals_func s key x then Null else lookup s (kvs h) x)"
            unfolding h1_def p_def
            using lookup_claim[OF g t k hash_def D3 free un, of x] by simp
          finally show ?thesis using cls[of x] by (simp add: mp)
        qed
        have "live_count s1 = live (kvs h1)" by (simp add: live_count_def getkvs_def s1 a_def)
        then have "live_count s1 = live_count s" using l1 lc by simp
        then show ?thesis using r w1 True mk m1 by (auto simp: s1)
      next
        case False
        then have vn: "val \<noteq> Null" using claim by auto
        define h2 where "h2 = h\<lparr>kvs := (kvs h)[p := \<lparr>u_key = key, u_val = val, u_hash = hash\<rparr>]\<rparr>"
        define s2 where "s2 = s\<lparr>heap := (heap s)(u_kvs s \<mapsto> h2), u_size := u_size s + 1,
                  changes := changes s + 1, freed := freed s\<rparr>"
        have "h1\<lparr>kvs := (kvs h1)[p := (kvs h1 ! p)\<lparr>u_val := val\<rparr>]\<rparr> = h2"
          using pl by (simp add: h1_def h2_def)
        then have "putif_update s1 False a p False key val oldval = Inr (Null, s2)"
          using putif_update_write[OF h1a _ f1, of p oldval False key val] v1 False vn
          by (auto simp: s1 s2_def a_def)
        then have r: "u_putif s False a key hash val oldval = Inr (mapping s key, s2)"
          using c2 mk by simp
        have t2: "table_ok s h2" unfolding h2_def p_def
          using g t k hash_def D3 free v by (rule table_ok_claim)
        have l2: "live (kvs h2) = live (kvs h) + 1"
          using live_update[OF pl(2), of "\<lparr>u_key = key, u_val = val, u_hash = hash\<rparr>"] pv vn
          by (simp add: h2_def)
        then have "u_size s + 1 = word_of_nat (live (kvs h2))" using sz by simp
        then have w2: "well_formed s2" unfolding s2_def by (rule wf_table_update[OF w t2])
        have m2: "mapping s2 x = (if equals_func s key x then val else mapping s x)" for x
          unfolding s2_def mapping_table_update h2_def p_def
          using lookup_claim[OF g t k hash_def D3 free v, of x] by (simp add: mp)
        have "live_count s2 = live (kvs h2)" by (simp add: live_count_def getkvs_def s2_def)
        then have "live_count s2 + (if mapping s key \<noteq> Null then 1 else 0) =
              live_count s + (if mapping s2 key \<noteq> Null then 1 else 0)"
          using l2 lc mk m2[of key] kk vn by simp
        then show ?thesis using r w2 False mk m2 by (auto simp: s2_def)
      qed
    qed
  qed
  then show ?thesis by (simp add: a_def hash_def)
qed


section \<open>The resize copies the map\<close>

lemma mid_fields [simp]:
  "u_size (mid s a oh b nh fr) = u_size s"
  "changes (mid s a oh b nh fr) = changes s"
  "u_kvs (mid s a oh b nh fr) = u_kvs s"
  "u_nkvs (mid s a oh b nh fr) = b"
  "equals_func (mid s a oh b nh fr) = equals_func s"
  "hash_func (mid s a oh b nh fr) = hash_func s"
  "brk (mid s a oh b nh fr) = Suc b"
  "junk (mid s a oh b nh fr) = junk s"
  "clock (mid s a oh b nh fr) = clock s"
  "freed (mid s a oh b nh fr) = fr"
  "heap (mid s a oh b nh fr) b = Some nh"
  by (simp_all add: mid_def)

lemma mid_heap_old [simp]: "a \<noteq> b \<Longrightarrow> heap (mid s a oh b nh fr) a = Some oh"
  by (simp add: mid_def)

lemma mid_upd_new [simp]: "upd_header (mid s a oh b nh fr) b f = mid s a oh b (f nh) fr"
  by (simp add: mid_def upd_header_def)

lemma mid_upd_old [simp]:
  "a \<noteq> b \<Longrightarrow> upd_header (mid s a oh b nh fr) a f = mid s a (f oh) b nh fr"
  by (simp add: mid_def upd_header_def fun_upd_twist)

lemma mid_free [simp]: "free_func (mid s a oh b nh fr) k = mid s a oh b nh (fr @ [k])"
  by (simp add: mid_def free_func_def)

lemma mid_set_new [simp]:
  "(mid s a oh b nh fr)\<lparr>heap := (heap (mid s a oh b nh fr))(b \<mapsto> nh')\<rparr> = mid s a oh b nh' fr"
  by (simp add: mid_def)

lemma BLOCK_SIZE_pos: "0 < BLOCK_SIZE"
  by (simp add: BLOCK_SIZE_def)

lemma block_end_todo: "0 < n \<Longrightarrow> block_end n (todo_of n) = n"
proof -
  assume "0 < n"
  have "n - 1 < BLOCK_SIZE + (n - 1) div BLOCK_SIZE * BLOCK_SIZE"
    using BLOCK_SIZE_pos by (rule dividend_less_div_times)
  then have "n \<le> BLOCK_SIZE + (n - 1) div BLOCK_SIZE * BLOCK_SIZE"
    using \<open>0 < n\<close> by arith
  then have "n \<le> todo_of n * BLOCK_SIZE" by (simp add: todo_of_def)
  then show ?thesis by (simp add: block_end_def)
qed

lemma block_len:
  assumes "j < todo_of n" "0 < n"
  shows "j * BLOCK_SIZE < n"
    and "j * BLOCK_SIZE + (if n < j * BLOCK_SIZE + BLOCK_SIZE then n - j * BLOCK_SIZE else BLOCK_SIZE)
           = block_end n (Suc j)"
proof -
  have "j \<le> (n - 1) div BLOCK_SIZE" using assms(1) by (simp add: todo_of_def)
  then have "j * BLOCK_SIZE \<le> (n - 1) div BLOCK_SIZE * BLOCK_SIZE" by (rule mult_le_mono1)
  also have "\<dots> \<le> n - 1" by (rule div_times_less_eq_dividend)
  finally show a: "j * BLOCK_SIZE < n" using assms(2) by arith
  have "Suc j * BLOCK_SIZE = j * BLOCK_SIZE + BLOCK_SIZE" by simp
  then show "j * BLOCK_SIZE + (if n < j * BLOCK_SIZE + BLOCK_SIZE then n - j * BLOCK_SIZE else BLOCK_SIZE)
           = block_end n (Suc j)"
    unfolding block_end_def using a by (simp only: min_def) arith
qed

lemma bzero_zeroed:
  assumes "zeroed lo es" "lo + m \<le> length es"
  shows "zeroed (lo + m) (bzero es lo m)" "length (bzero es lo m) = length es"
proof -
  show "length (bzero es lo m) = length es" using assms(2) by (simp add: bzero_def)
  show "zeroed (lo + m) (bzero es lo m)"
    unfolding zeroed_def
  proof (intro allI impI)
    fix i assume i: "i < lo + m"
    show "bzero es lo m ! i = zero_entry"
    proof (cases "i < lo")
      case True
      then show ?thesis using assms by (simp add: bzero_def nth_append zeroed_def)
    next
      case False
      then show ?thesis using assms(2) i by (simp add: bzero_def nth_append)
    qed
  qed
qed

lemma zero_block_step:
  assumes "a \<noteq> b" "len nh = n" "0 < n" "u_btodo nh = j" "u_bdone nh = j" "j < todo_of n"
  shows "u_zero_block (mid s a oh b nh fr) b =
           Inr (True, mid s a oh b
                  (nh\<lparr>u_btodo := Suc j,
                      kvs := bzero (kvs nh) (j * BLOCK_SIZE) (block_end n (Suc j) - j * BLOCK_SIZE),
                      u_bdone := Suc j\<rparr>) fr)"
proof -
  have "(if n < j * BLOCK_SIZE + BLOCK_SIZE then n - j * BLOCK_SIZE else BLOCK_SIZE)
          = block_end n (Suc j) - j * BLOCK_SIZE"
    using block_len(2)[OF assms(6,3)] by arith
  then show ?thesis
    using assms by (auto simp: u_zero_block_def Let_def todo_of_def split: if_splits)
qed

lemma zero_block_end:
  assumes "a \<noteq> b" "len nh = n" "0 < n" "u_btodo nh = todo_of n" "u_bdone nh = todo_of n"
  shows "u_zero_block (mid s a oh b nh fr) b =
           Inr (False, mid s a oh b (nh\<lparr>u_btodo := Suc (todo_of n)\<rparr>) fr)"
  using assms by (simp add: u_zero_block_def Let_def todo_of_def)

lemma zero_loop_run:
  assumes "a \<noteq> b" "len nh = n" "0 < n" "length (kvs nh) = n"
    "u_btodo nh = j" "u_bdone nh = j" "j \<le> todo_of n" "zeroed (block_end n j) (kvs nh)"
  shows "zero_loop (\<lambda>_. True) (mid s a oh b nh fr) b =
           Some (Inr (mid s a oh b
              (nh\<lparr>u_btodo := Suc (todo_of n), kvs := replicate n zero_entry,
                  u_bdone := todo_of n\<rparr>) fr))"
  using assms
proof (induction "todo_of n - j" arbitrary: j nh)
  case 0
  then have j: "j = todo_of n" by simp
  have "\<forall>i<n. kvs nh ! i = zero_entry"
    using "0.prems"(8) block_end_todo[OF "0.prems"(3)] by (simp add: zeroed_def j)
  then have "kvs nh = replicate n zero_entry"
    using "0.prems"(4) by (intro nth_equalityI) simp_all
  then have "nh\<lparr>u_btodo := Suc (todo_of n)\<rparr> =
        nh\<lparr>u_btodo := Suc (todo_of n), kvs := replicate n zero_entry, u_bdone := todo_of n\<rparr>"
    using "0.prems"(6) j by simp
  then show ?case
    using zero_block_end[OF "0.prems"(1,2,3), of s oh fr] "0.prems"(5,6) j
    by (subst zero_loop.simps) simp
next
  case (Suc m)
  then have jl: "j < todo_of n" by simp
  define nh1 where "nh1 = nh\<lparr>u_btodo := Suc j,
        kvs := bzero (kvs nh) (j * BLOCK_SIZE) (block_end n (Suc j) - j * BLOCK_SIZE),
        u_bdone := Suc j\<rparr>"
  have be: "block_end n j = j * BLOCK_SIZE" "j * BLOCK_SIZE \<le> block_end n (Suc j)"
    "block_end n (Suc j) \<le> n"
    using block_len(1)[OF jl Suc.prems(3)] by (simp_all add: block_end_def)
  have z: "zeroed (j * BLOCK_SIZE + (block_end n (Suc j) - j * BLOCK_SIZE)) (kvs nh1)"
    "length (kvs nh1) = length (kvs nh)"
    using bzero_zeroed[of "j * BLOCK_SIZE" "kvs nh" "block_end n (Suc j) - j * BLOCK_SIZE"]
      Suc.prems(4,8) be by (simp_all add: nh1_def)
  have step: "u_zero_block (mid s a oh b nh fr) b = Inr (True, mid s a oh b nh1 fr)"
    unfolding nh1_def using Suc.prems(1,2,3,5,6) jl by (rule zero_block_step)
  have "zero_loop (\<lambda>_. True) (mid s a oh b nh1 fr) b =
           Some (Inr (mid s a oh b
              (nh1\<lparr>u_btodo := Suc (todo_of n), kvs := replicate n zero_entry,
                  u_bdone := todo_of n\<rparr>) fr))"
  proof (rule Suc.hyps(1))
    show "m = todo_of n - Suc j" using Suc.hyps(2) by simp
    show "zeroed (block_end n (Suc j)) (kvs nh1)" using z(1) be by simp
    show "length (kvs nh1) = n" using z(2) Suc.prems(4) by simp
  qed (use Suc.prems jl in \<open>simp_all add: nh1_def\<close>)
  moreover have "nh1\<lparr>u_btodo := Suc (todo_of n), kvs := replicate n zero_entry,
                  u_bdone := todo_of n\<rparr> = nh\<lparr>u_btodo := Suc (todo_of n), kvs := replicate n zero_entry,
                  u_bdone := todo_of n\<rparr>"
    by (simp add: nh1_def)
  ultimately show ?case
    using step by (subst zero_loop.simps) simp
qed

lemma skips_funcs:
  assumes e: "equals_func s' = equals_func s"
  shows "skips s' h key hash p = skips s h key hash p"
  unfolding skips_def e by (rule refl)

lemma rests_funcs:
  assumes e: "equals_func s' = equals_func s"
  shows "rests s' h key p = rests s h key p"
  unfolding rests_def e by (rule refl)

text \<open>\<^verbatim>\<open>_putif\<close> in resize-copy mode, for a key that the new table does not hold yet.\<close>

lemma putif_copy:
  assumes g: "good_funcs t" and hb: "heap t b = Some nh" and tb: "table_ok t nh"
    and k: "k \<noteq> Null" "user_ptr k"
    and absent: "\<forall>i<len nh. u_key (kvs nh ! i) \<noteq> Null \<longrightarrow> \<not> equals_func t (u_key (kvs nh ! i)) k"
    and room: "\<exists>i<len nh. u_key (kvs nh ! i) = Null"
  obtains D where "\<forall>d'<D. \<not> rests t nh k (pos nh (key_hash t k) d')"
    "u_key (kvs nh ! pos nh (key_hash t k) D) = Null"
    "putif_with no_resize t True b k (key_hash t k) v Null =
       (if v = Null then Inr (DELETED, t)
        else Inr (Null, t\<lparr>heap := (heap t)(b \<mapsto> nh\<lparr>kvs := (kvs nh)[pos nh (key_hash t k) D :=
                  \<lparr>u_key = k, u_val = v, u_hash = key_hash t k\<rparr>]\<rparr>)\<rparr>))"
proof -
  define hash where "hash = key_hash t k"
  have sh: "shape nh" using tb by (rule table_shape)
  have hz: "hash \<noteq> 0" by (simp add: hash_def key_hash_nonzero)
  from room obtain i where i: "i < len nh" "u_key (kvs nh ! i) = Null" by blast
  obtain d where d: "d < len nh" "pos nh hash d = i"
    using pos_onto[OF shape_len_pos[OF sh] i(1), of hash] by blast
  have "\<exists>d<len nh. rests t nh k (pos nh hash d)"
    using d i(2) by (auto simp: rests_def)
  then obtain D where D: "D < len nh" "rests t nh k (pos nh hash D)"
    "\<forall>d'<D. \<not> rests t nh k (pos nh hash d')" by (rule first_rest)
  define p where "p = pos nh hash D"
  have pl: "p < len nh" "p < length (kvs nh)" using sh by (simp_all add: p_def pos_less shape_length)
  have free: "u_key (kvs nh ! p) = Null"
    using D(2) absent pl(1) by (auto simp: rests_def p_def)
  have pv: "u_val (kvs nh ! p) = Null"
    using table_slot[OF tb pl(1)] free by (simp add: slot_ok_def)
  have sk: "\<forall>d'<D. skips t nh k hash (pos nh hash d')"
    using D(3) skips_iff[OF g tb, of _ k] sh by (simp add: hash_def pos_less)
  have up: "unat ((nxt nh ^^ D) (home nh hash)) = p" using sh by (simp add: unat_walk p_def)
  have ul: "unat ((nxt nh ^^ D) (home nh hash)) < len nh" using up pl by simp
  have pre: "putif_probe t True b k hash v Null (home nh hash) 0 =
             putif_probe t True b k hash v Null ((nxt nh ^^ D) (home nh hash)) 0"
    using probe_from_home[OF hb sh sk, of True v Null] by simp
  have call: "putif_with no_resize t True b k hash v Null =
        (case the_result (putif_probe t True b k hash v Null ((nxt nh ^^ D) (home nh hash)) 0) of
           Inl er \<Rightarrow> Inl er
         | Inr (Return r s1) \<Rightarrow> Inr (r, s1)
         | Inr Limit \<Rightarrow> no_resize t b
         | Inr (Break i m s1) \<Rightarrow> putif_update s1 True b i m k v Null)"
    using hb k(1) hz pre by (simp add: putif_with_def home_def)
  have res: "putif_with no_resize t True b k hash v Null =
       (if v = Null then Inr (DELETED, t)
        else Inr (Null, t\<lparr>heap := (heap t)(b \<mapsto> nh\<lparr>kvs := (kvs nh)[p :=
                  \<lparr>u_key = k, u_val = v, u_hash = hash\<rparr>]\<rparr>)\<rparr>))"
  proof (cases "v = Null")
    case True
    have "putif_probe t True b k hash Null Null ((nxt nh ^^ D) (home nh hash)) 0 =
            Some (Inr (Return DELETED t))"
      using probe_free_delete[OF hb sh ul, of Null True k hash 0] free by (simp add: up)
    then show ?thesis using call True by (simp add: the_result_def)
  next
    case False
    define s1 where "s1 = upd_entry t b p (\<lambda>e. e\<lparr>u_key := k, u_hash := hash\<rparr>)"
    define h1 where "h1 = nh\<lparr>kvs := (kvs nh)[p := \<lparr>u_key = k, u_val = Null, u_hash = hash\<rparr>]\<rparr>"
    have e1: "(kvs nh ! p)\<lparr>u_key := k, u_hash := hash\<rparr> = \<lparr>u_key = k, u_val = Null, u_hash = hash\<rparr>"
      using pv by simp
    have s1: "s1 = t\<lparr>heap := (heap t)(b \<mapsto> h1)\<rparr>"
      using hb e1 by (simp add: s1_def upd_entry_def upd_header_def h1_def)
    have "putif_probe t True b k hash v Null ((nxt nh ^^ D) (home nh hash)) 0 =
            Some (Inr (Break p False s1))"
      using probe_free_claim[OF hb sh ul, of v Null True k hash 0] free False
      by (simp add: up s1_def)
    then have c2: "putif_with no_resize t True b k hash v Null = putif_update s1 True b p False k v Null"
      using call by (simp add: the_result_def)
    have h1a: "heap s1 b = Some h1" by (simp add: s1)
    have v1: "u_val (kvs h1 ! p) = Null" using pl by (simp add: h1_def)
    have "h1\<lparr>kvs := (kvs h1)[p := (kvs h1 ! p)\<lparr>u_val := v\<rparr>]\<rparr> =
          nh\<lparr>kvs := (kvs nh)[p := \<lparr>u_key = k, u_val = v, u_hash = hash\<rparr>]\<rparr>"
      using pl by (simp add: h1_def)
    then have "putif_update s1 True b p False k v Null =
        Inr (Null, t\<lparr>heap := (heap t)(b \<mapsto> nh\<lparr>kvs := (kvs nh)[p :=
                  \<lparr>u_key = k, u_val = v, u_hash = hash\<rparr>]\<rparr>)\<rparr>)"
      using putif_copy_write[OF h1a v1, of k v] by (simp add: s1)
    then show ?thesis using c2 False by simp
  qed
  show ?thesis
    using that[of D] D(3) free res by (simp add: p_def hash_def)
qed

lemma find_snoc:
  "find P (xs @ [x]) = (case find P xs of None \<Rightarrow> (if P x then Some x else None) | Some y \<Rightarrow> Some y)"
  by (induction xs) auto

lemma prefix_fresh:
  assumes "good_funcs s" "table_ok s h" "i < len h" "u_key (kvs h ! i) \<noteq> Null"
    "equals_func s (u_key (kvs h ! i)) k'"
  shows "find (\<lambda>e. u_key e \<noteq> Null \<and> equals_func s (u_key e) k') (take i (kvs h)) = None"
proof -
  have il: "i < length (kvs h)" using assms(2,3) table_shape[of s h] by (simp add: shape_length)
  have "\<not> (u_key x \<noteq> Null \<and> equals_func s (u_key x) k')" if "x \<in> set (take i (kvs h))" for x
  proof
    assume x: "u_key x \<noteq> Null \<and> equals_func s (u_key x) k'"
    from that obtain j where j: "j < i" "x = kvs h ! j"
      using il by (auto simp: in_set_conv_nth)
    have "equals_func s k' (u_key (kvs h ! i))" using assms(5) by (rule good_sym[OF assms(1)])
    then have "equals_func s (u_key (kvs h ! j)) (u_key (kvs h ! i))"
      using x j(2) good_trans[OF assms(1), of "u_key (kvs h ! j)" k'] by simp
    then have "j = i"
      using unique_keysD[OF table_unique[OF assms(2)], of j i] j assms(3,4) x by simp
    then show False using j(1) by simp
  qed
  then show ?thesis by (simp add: find_None_iff)
qed

lemma lookup_take_Suc:
  assumes "good_funcs s" "table_ok s h" "i < len h"
  shows "lookup s (take (Suc i) (kvs h)) k' =
           (if u_key (kvs h ! i) \<noteq> Null \<and> equals_func s (u_key (kvs h ! i)) k'
            then u_val (kvs h ! i) else lookup s (take i (kvs h)) k')"
proof -
  have il: "i < length (kvs h)" using assms(2,3) table_shape[of s h] by (simp add: shape_length)
  have t: "take (Suc i) (kvs h) = take i (kvs h) @ [kvs h ! i]"
    using il by (rule take_Suc_conv_app_nth)
  show ?thesis
  proof (cases "u_key (kvs h ! i) \<noteq> Null \<and> equals_func s (u_key (kvs h ! i)) k'")
    case True
    then show ?thesis
      using prefix_fresh[OF assms, of k'] by (simp add: lookup_def t find_snoc)
  next
    case False
    then show ?thesis by (auto simp: lookup_def t find_snoc split: option.splits)
  qed
qed

lemma lookup_take_fresh:
  assumes "good_funcs s" "table_ok s h" "i < len h" "u_key (kvs h ! i) \<noteq> Null"
    "equals_func s (u_key (kvs h ! i)) k'"
  shows "lookup s (take i (kvs h)) k' = Null"
  using prefix_fresh[OF assms] by (simp add: lookup_def)

lemma live_take_Suc:
  "i < length es \<Longrightarrow> live (take (Suc i) es) = live (take i es) + (if u_val (es ! i) \<noteq> Null then 1 else 0)"
  by (simp add: live_def take_Suc_conv_app_nth)

lemma live_lt_free:
  assumes "live es < length es"
  shows "\<exists>j<length es. u_val (es ! j) = Null"
proof (rule ccontr)
  assume "\<not> (\<exists>j<length es. u_val (es ! j) = Null)"
  then have "\<forall>x\<in>set es. u_val x \<noteq> Null" by (auto simp: in_set_conv_nth)
  then have "filter (\<lambda>e. u_val e \<noteq> Null) es = es" by (simp add: filter_id_conv)
  then show False using assms by (simp add: live_def)
qed

lemma live_take_le: "live (take i es) \<le> i"
  using live_le[of "take i es"] by simp

lemma copyingD:
  assumes "copying s oh0 i oh nh fr"
  shows "len oh = len oh0" "length (kvs oh) = len oh0"
    "\<And>j. i \<le> j \<Longrightarrow> j < len oh0 \<Longrightarrow> kvs oh ! j = kvs oh0 ! j"
    "table_ok s nh"
    "\<And>j. j < len nh \<Longrightarrow> u_key (kvs nh ! j) \<noteq> Null \<Longrightarrow> u_val (kvs nh ! j) \<noteq> Null"
    "\<And>k. lookup s (kvs nh) k = lookup s (take i (kvs oh0)) k"
    "live (kvs nh) = live (take i (kvs oh0))"
    "fr = freed s @ map u_key (filter tomb (take i (kvs oh0)))"
  using assms unfolding copying_def by blast+

lemma copyingI:
  assumes "len oh = len oh0" "length (kvs oh) = len oh0"
    "\<And>j. i \<le> j \<Longrightarrow> j < len oh0 \<Longrightarrow> kvs oh ! j = kvs oh0 ! j"
    "table_ok s nh"
    "\<And>j. j < len nh \<Longrightarrow> u_key (kvs nh ! j) \<noteq> Null \<Longrightarrow> u_val (kvs nh ! j) \<noteq> Null"
    "\<And>k. lookup s (kvs nh) k = lookup s (take i (kvs oh0)) k"
    "live (kvs nh) = live (take i (kvs oh0))"
    "fr = freed s @ map u_key (filter tomb (take i (kvs oh0)))"
  shows "copying s oh0 i oh nh fr"
  unfolding copying_def using assms by blast

lemma filter_take_Suc:
  "i < length es \<Longrightarrow> filter P (take (Suc i) es) = filter P (take i es) @ (if P (es ! i) then [es ! i] else [])"
  by (simp add: take_Suc_conv_app_nth)

lemma mid_upd_entry_old:
  "a \<noteq> b \<Longrightarrow> upd_entry (mid s a oh b nh fr) a i f = mid s a (oh\<lparr>kvs := (kvs oh)[i := f (kvs oh ! i)]\<rparr>) b nh fr"
  by (simp add: upd_entry_def)

lemma copy_slot_free:
  assumes g: "good_funcs s" and t0: "table_ok s oh0" and ab: "a \<noteq> b"
    and c: "copying s oh0 i oh nh fr" and i: "i < len oh0"
    and fk: "u_key (kvs oh0 ! i) = Null"
  shows "\<exists>es' es2 fr'. copy_slot (mid s a oh b nh fr) a b i
              = Inr (mid s a (oh\<lparr>kvs := es'\<rparr>) b (nh\<lparr>kvs := es2\<rparr>) fr') \<and>
            copying s oh0 (Suc i) (oh\<lparr>kvs := es'\<rparr>) (nh\<lparr>kvs := es2\<rparr>) fr'"
proof -
  note cD = copyingD[OF c]
  have sh0: "shape oh0" using t0 by (rule table_shape)
  have sho: "shape oh" using sh0 cD(1,2) by (simp add: shape_def)
  have i32: "i < 2 ^ 32"
  proof -
    from sh0 obtain k where "k \<le> 31" "len oh0 = 2 ^ k" by (auto simp: shape_def)
    then show ?thesis using pow_le_31[of k] i by simp
  qed
  have ui: "unat (word_of_nat i :: 32 word) = i" using i32 by (simp add: unat_of_nat)
  have ld: "u_load oh (word_of_nat i) = Inr i"
    using shape_load[OF sho, of "word_of_nat i"] ui i cD(1) by simp
  have ei: "kvs oh ! i = kvs oh0 ! i" using cD(3)[of i] i by simp
  have il: "i < length (kvs oh0)" using sh0 i by (simp add: shape_length)
  have v0: "u_val (kvs oh0 ! i) = Null"
    using table_slot[OF t0 i] fk by (simp add: slot_ok_def)
  define es' where "es' = (kvs oh)[i := (kvs oh ! i)\<lparr>u_key := SIZED\<rparr>]"
  have run: "copy_slot (mid s a oh b nh fr) a b i = Inr (mid s a (oh\<lparr>kvs := es'\<rparr>) b (nh\<lparr>kvs := kvs nh\<rparr>) fr)"
    using ab ld ei fk
    by (simp add: copy_slot_def getkey_def cas_key_def mid_upd_entry_old es'_def)
  have "copying s oh0 (Suc i) (oh\<lparr>kvs := es'\<rparr>) (nh\<lparr>kvs := kvs nh\<rparr>) fr"
  proof (rule copyingI)
    show "len (oh\<lparr>kvs := es'\<rparr>) = len oh0" using cD(1) by simp
    show "length (kvs (oh\<lparr>kvs := es'\<rparr>)) = len oh0" using cD(2) by (simp add: es'_def)
    show "kvs (oh\<lparr>kvs := es'\<rparr>) ! j = kvs oh0 ! j" if "Suc i \<le> j" "j < len oh0" for j
      using that cD(3)[of j] by (simp add: es'_def)
    show "table_ok s (nh\<lparr>kvs := kvs nh\<rparr>)" using cD(4) by simp
    show "u_val (kvs (nh\<lparr>kvs := kvs nh\<rparr>) ! j) \<noteq> Null"
      if "j < len (nh\<lparr>kvs := kvs nh\<rparr>)" "u_key (kvs (nh\<lparr>kvs := kvs nh\<rparr>) ! j) \<noteq> Null" for j
      using that cD(5)[of j] by simp
    show "lookup s (kvs (nh\<lparr>kvs := kvs nh\<rparr>)) k = lookup s (take (Suc i) (kvs oh0)) k" for k
      using cD(6)[of k] lookup_take_Suc[OF g t0 i, of k] fk by simp
    show "live (kvs (nh\<lparr>kvs := kvs nh\<rparr>)) = live (take (Suc i) (kvs oh0))"
      using cD(7) live_take_Suc[OF il] v0 by simp
    show "fr = freed s @ map u_key (filter tomb (take (Suc i) (kvs oh0)))"
      using cD(8) filter_take_Suc[OF il, of tomb] fk by (simp add: tomb_def)
  qed
  then show ?thesis using run by blast
qed

lemma copy_slot_used:
  assumes g: "good_funcs s" and t0: "table_ok s oh0" and ab: "a \<noteq> b"
    and c: "copying s oh0 i oh nh fr" and i: "i < len oh0" and room: "len oh0 \<le> len nh"
    and fk: "u_key (kvs oh0 ! i) \<noteq> Null"
  shows "\<exists>es' es2 fr'. copy_slot (mid s a oh b nh fr) a b i
              = Inr (mid s a (oh\<lparr>kvs := es'\<rparr>) b (nh\<lparr>kvs := es2\<rparr>) fr') \<and>
            copying s oh0 (Suc i) (oh\<lparr>kvs := es'\<rparr>) (nh\<lparr>kvs := es2\<rparr>) fr'"
proof -
  note cD = copyingD[OF c]
  have sh0: "shape oh0" using t0 by (rule table_shape)
  have sho: "shape oh" using sh0 cD(1,2) by (simp add: shape_def)
  have shn: "shape nh" using cD(4) by (rule table_shape)
  have i32: "i < 2 ^ 32"
  proof -
    from sh0 obtain k where "k \<le> 31" "len oh0 = 2 ^ k" by (auto simp: shape_def)
    then show ?thesis using pow_le_31[of k] i by simp
  qed
  have ui: "unat (word_of_nat i :: 32 word) = i" using i32 by (simp add: unat_of_nat)
  have ld: "u_load oh (word_of_nat i) = Inr i"
    using shape_load[OF sho, of "word_of_nat i"] ui i cD(1) by simp
  define e where "e = kvs oh0 ! i"
  define k where "k = u_key e"
  define old where "old = u_val e"
  have ei: "kvs oh ! i = e" using cD(3)[of i] i by (simp add: e_def)
  have il: "i < length (kvs oh0)" "i < length (kvs oh)"
    using sh0 sho i cD(1) by (simp_all add: shape_length)
  have so: "slot_ok s e" using table_slot[OF t0 i] by (simp add: e_def)
  have kn: "k \<noteq> Null" using fk by (simp add: k_def e_def)
  have ku: "user_ptr k" and eh: "u_hash e = key_hash s k" and ou: "user_ptr old"
    using so kn by (simp_all add: slot_ok_def k_def old_def)
  define oh1 where "oh1 = oh\<lparr>kvs := (kvs oh)[i := e\<lparr>u_val := SIZED\<rparr>]\<rparr>"
  define t1 where "t1 = mid s a oh1 b nh fr"
  have cv: "cas_val (mid s a oh b nh fr) a i SIZED old = (True, t1)"
    using ab ei by (simp add: cas_val_def mid_upd_entry_old old_def t1_def oh1_def)
  have gh: "gethash e = Inr (key_hash s k)"
    using eh key_hash_nonzero[of s k] by (simp add: gethash_def)
  have run1: "copy_slot (mid s a oh b nh fr) a b i =
     (case putif_with no_resize t1 True b k (key_hash s k) old Null of
        Inl er \<Rightarrow> Inl er
      | Inr (r, s2) \<Rightarrow>
          if r = DELETED then
            (case cas_key s2 a i SIZED k of
               (False, s3) \<Rightarrow> Inl Abort
             | (True, s3) \<Rightarrow> Inr (free_func s3 k))
          else Inr s2)"
    using ab ld ei kn cv gh
    by (simp add: copy_slot_def getkey_def getval_def k_def[symmetric] old_def[symmetric])
  have gt: "good_funcs t1" using g good_funcs_funcs[of t1 s] by (simp add: t1_def)
  have ht: "heap t1 b = Some nh" by (simp add: t1_def)
  have tt: "table_ok t1 nh"
    using cD(4) table_ok_funcs[of t1 s nh] by (simp add: t1_def)
  have kh: "key_hash t1 k = key_hash s k" by (simp add: t1_def key_hash_def)
  have fresh: "lookup s (take i (kvs oh0)) k' = Null" if "equals_func s k k'" for k'
    using lookup_take_fresh[OF g t0 i fk, of k'] that by (simp add: k_def e_def)
  have absent: "\<forall>j<len nh. u_key (kvs nh ! j) \<noteq> Null \<longrightarrow> \<not> equals_func t1 (u_key (kvs nh ! j)) k"
  proof (intro allI impI notI)
    fix j assume j: "j < len nh" "u_key (kvs nh ! j) \<noteq> Null" "equals_func t1 (u_key (kvs nh ! j)) k"
    have "equals_func s (u_key (kvs nh ! j)) k" using j(3) by (simp add: t1_def)
    then have "lookup s (kvs nh) k = u_val (kvs nh ! j)"
      using table_lookup_hit[OF g cD(4) j(1,2)] by simp
    moreover have "lookup s (kvs nh) k = Null"
      using cD(6)[of k] fresh[of k] good_refl[OF g] by simp
    ultimately show False using cD(5)[OF j(1,2)] by simp
  qed
  have room': "\<exists>j<len nh. u_key (kvs nh ! j) = Null"
  proof -
    have "live (kvs nh) \<le> i" using cD(7) live_take_le[of i "kvs oh0"] by simp
    then have "live (kvs nh) < length (kvs nh)"
      using i room shn by (simp add: shape_length)
    then obtain j where j: "j < length (kvs nh)" "u_val (kvs nh ! j) = Null"
      using live_lt_free by blast
    then have "j < len nh" using shn by (simp add: shape_length)
    then show ?thesis using cD(5)[of j] j(2) by blast
  qed
  obtain D where D: "\<forall>d'<D. \<not> rests t1 nh k (pos nh (key_hash t1 k) d')"
    "u_key (kvs nh ! pos nh (key_hash t1 k) D) = Null"
    "putif_with no_resize t1 True b k (key_hash t1 k) old Null =
       (if old = Null then Inr (DELETED, t1)
        else Inr (Null, t1\<lparr>heap := (heap t1)(b \<mapsto> nh\<lparr>kvs := (kvs nh)[pos nh (key_hash t1 k) D :=
                  \<lparr>u_key = k, u_val = old, u_hash = key_hash t1 k\<rparr>]\<rparr>)\<rparr>))"
    using putif_copy[OF gt ht tt kn ku absent room', of old] by blast
  have Dr: "\<forall>d'<D. \<not> rests s nh k (pos nh (key_hash s k) d')"
    using D(1) rests_funcs[of t1 s nh k] unfolding kh by (simp add: t1_def)
  have Df: "u_key (kvs nh ! pos nh (key_hash s k) D) = Null" using D(2) by (simp add: kh)
  define p where "p = pos nh (key_hash s k) D"
  have pl: "p < length (kvs nh)" using shn by (simp add: p_def pos_less shape_length)
  have pv: "u_val (kvs nh ! p) = Null"
    using table_slot[OF cD(4), of p] pl shn Df by (simp add: slot_ok_def p_def shape_length)
  show ?thesis
  proof (cases "old = Null")
    case True
    define es' where "es' = (kvs oh1)[i := (kvs oh1 ! i)\<lparr>u_key := SIZED\<rparr>]"
    have k1: "u_key (kvs oh1 ! i) = k" using il by (simp add: oh1_def k_def)
    have "cas_key t1 a i SIZED k = (True, mid s a (oh1\<lparr>kvs := es'\<rparr>) b nh fr)"
      using ab k1 by (simp add: cas_key_def t1_def mid_upd_entry_old es'_def)
    then have run: "copy_slot (mid s a oh b nh fr) a b i =
          Inr (mid s a (oh\<lparr>kvs := es'\<rparr>) b (nh\<lparr>kvs := kvs nh\<rparr>) (fr @ [k]))"
      using run1 D(3)[unfolded kh] True by (simp add: oh1_def)
    have "copying s oh0 (Suc i) (oh\<lparr>kvs := es'\<rparr>) (nh\<lparr>kvs := kvs nh\<rparr>) (fr @ [k])"
    proof (rule copyingI)
      show "len (oh\<lparr>kvs := es'\<rparr>) = len oh0" using cD(1) by simp
      show "length (kvs (oh\<lparr>kvs := es'\<rparr>)) = len oh0" using cD(2) by (simp add: es'_def oh1_def)
      show "kvs (oh\<lparr>kvs := es'\<rparr>) ! j = kvs oh0 ! j" if "Suc i \<le> j" "j < len oh0" for j
        using that cD(3)[of j] by (simp add: es'_def oh1_def)
      show "table_ok s (nh\<lparr>kvs := kvs nh\<rparr>)" using cD(4) by simp
      show "u_val (kvs (nh\<lparr>kvs := kvs nh\<rparr>) ! j) \<noteq> Null"
        if "j < len (nh\<lparr>kvs := kvs nh\<rparr>)" "u_key (kvs (nh\<lparr>kvs := kvs nh\<rparr>) ! j) \<noteq> Null" for j
        using that cD(5)[of j] by simp
      show "lookup s (kvs (nh\<lparr>kvs := kvs nh\<rparr>)) k' = lookup s (take (Suc i) (kvs oh0)) k'" for k'
        using cD(6)[of k'] lookup_take_Suc[OF g t0 i, of k'] fresh[of k'] True
        by (simp add: k_def old_def e_def)
      show "live (kvs (nh\<lparr>kvs := kvs nh\<rparr>)) = live (take (Suc i) (kvs oh0))"
        using cD(7) live_take_Suc[OF il(1)] True by (simp add: old_def e_def)
      show "fr @ [k] = freed s @ map u_key (filter tomb (take (Suc i) (kvs oh0)))"
        using cD(8) filter_take_Suc[OF il(1), of tomb] fk True
        by (simp add: tomb_def old_def e_def k_def)
    qed
    then show ?thesis using run by blast
  next
    case False
    define es2 where "es2 = (kvs nh)[p := \<lparr>u_key = k, u_val = old, u_hash = key_hash s k\<rparr>]"
    have run: "copy_slot (mid s a oh b nh fr) a b i =
          Inr (mid s a (oh\<lparr>kvs := kvs oh1\<rparr>) b (nh\<lparr>kvs := es2\<rparr>) fr)"
      using run1 D(3)[unfolded kh] False by (simp add: t1_def es2_def p_def oh1_def)
    have tk: "table_ok s (nh\<lparr>kvs := es2\<rparr>)"
      unfolding es2_def p_def
      using g cD(4) kn ku refl Dr Df ou by (rule table_ok_claim)
    have lk: "lookup s es2 k' = (if equals_func s k k' then old else lookup s (kvs nh) k')" for k'
      unfolding es2_def p_def
      using g cD(4) kn ku refl Dr Df ou by (rule lookup_claim)
    have "copying s oh0 (Suc i) (oh\<lparr>kvs := kvs oh1\<rparr>) (nh\<lparr>kvs := es2\<rparr>) fr"
    proof (rule copyingI)
      show "len (oh\<lparr>kvs := kvs oh1\<rparr>) = len oh0" using cD(1) by simp
      show "length (kvs (oh\<lparr>kvs := kvs oh1\<rparr>)) = len oh0" using cD(2) by (simp add: oh1_def)
      show "kvs (oh\<lparr>kvs := kvs oh1\<rparr>) ! j = kvs oh0 ! j" if "Suc i \<le> j" "j < len oh0" for j
        using that cD(3)[of j] by (simp add: oh1_def)
      show "table_ok s (nh\<lparr>kvs := es2\<rparr>)" by (rule tk)
      show "u_val (kvs (nh\<lparr>kvs := es2\<rparr>) ! j) \<noteq> Null"
        if "j < len (nh\<lparr>kvs := es2\<rparr>)" "u_key (kvs (nh\<lparr>kvs := es2\<rparr>) ! j) \<noteq> Null" for j
      proof (cases "j = p")
        case True
        then show ?thesis using pl False by (simp add: es2_def)
      next
        case jp: False
        then show ?thesis using that cD(5)[of j] by (simp add: es2_def)
      qed
      show "lookup s (kvs (nh\<lparr>kvs := es2\<rparr>)) k' = lookup s (take (Suc i) (kvs oh0)) k'" for k'
        using lk[of k'] cD(6)[of k'] lookup_take_Suc[OF g t0 i, of k'] fk
        by (simp add: k_def old_def e_def)
      have "live es2 + (if u_val (kvs nh ! p) \<noteq> Null then 1 else 0) =
            live (kvs nh) + (if old \<noteq> Null then 1 else 0)"
        unfolding es2_def using live_update[OF pl, of "\<lparr>u_key = k, u_val = old, u_hash = key_hash s k\<rparr>"]
        by simp
      then show "live (kvs (nh\<lparr>kvs := es2\<rparr>)) = live (take (Suc i) (kvs oh0))"
        using cD(7) live_take_Suc[OF il(1)] False pv by (simp add: old_def e_def)
      show "fr = freed s @ map u_key (filter tomb (take (Suc i) (kvs oh0)))"
        using cD(8) filter_take_Suc[OF il(1), of tomb] False
        by (simp add: tomb_def old_def e_def)
    qed
    then show ?thesis using run by blast
  qed
qed

lemma copy_slot_step:
  assumes "good_funcs s" "table_ok s oh0" "a \<noteq> b"
    "copying s oh0 i oh nh fr" "i < len oh0" "len oh0 \<le> len nh"
  shows "\<exists>es' es2 fr'. copy_slot (mid s a oh b nh fr) a b i
              = Inr (mid s a (oh\<lparr>kvs := es'\<rparr>) b (nh\<lparr>kvs := es2\<rparr>) fr') \<and>
            copying s oh0 (Suc i) (oh\<lparr>kvs := es'\<rparr>) (nh\<lparr>kvs := es2\<rparr>) fr'"
proof (cases "u_key (kvs oh0 ! i) = Null")
  case True
  with assms show ?thesis by (intro copy_slot_free)
next
  case False
  with assms show ?thesis by (intro copy_slot_used)
qed

lemma copying_header:
  "copying s oh0 i (oh\<lparr>u_btodo := x\<rparr>) nh fr = copying s oh0 i oh nh fr"
  "copying s oh0 i (oh\<lparr>u_bdone := y\<rparr>) nh fr = copying s oh0 i oh nh fr"
  by (simp_all add: copying_def)

lemma copy_slots_run:
  assumes "good_funcs s" "table_ok s oh0" "a \<noteq> b"
    "copying s oh0 lo oh nh fr" "lo \<le> hi" "hi \<le> len oh0" "len oh0 \<le> len nh"
  shows "\<exists>es' es2 fr'. copy_slots (mid s a oh b nh fr) a b [lo..<hi]
              = Inr (mid s a (oh\<lparr>kvs := es'\<rparr>) b (nh\<lparr>kvs := es2\<rparr>) fr') \<and>
            copying s oh0 hi (oh\<lparr>kvs := es'\<rparr>) (nh\<lparr>kvs := es2\<rparr>) fr'"
  using assms(4,5,7)
proof (induction "hi - lo" arbitrary: lo oh nh fr)
  case 0
  then have "lo = hi" by simp
  then have "copy_slots (mid s a oh b nh fr) a b [lo..<hi]
              = Inr (mid s a (oh\<lparr>kvs := kvs oh\<rparr>) b (nh\<lparr>kvs := kvs nh\<rparr>) fr)"
    by simp
  moreover have "copying s oh0 hi (oh\<lparr>kvs := kvs oh\<rparr>) (nh\<lparr>kvs := kvs nh\<rparr>) fr"
    using "0.prems"(1) \<open>lo = hi\<close> by simp
  ultimately show ?case by blast
next
  case (Suc m)
  then have lt: "lo < hi" by simp
  then have li: "lo < len oh0" using assms(6) by simp
  obtain es1 es3 fr1 where st:
    "copy_slot (mid s a oh b nh fr) a b lo = Inr (mid s a (oh\<lparr>kvs := es1\<rparr>) b (nh\<lparr>kvs := es3\<rparr>) fr1)"
    "copying s oh0 (Suc lo) (oh\<lparr>kvs := es1\<rparr>) (nh\<lparr>kvs := es3\<rparr>) fr1"
    using copy_slot_step[OF assms(1,2,3) Suc.prems(1) li Suc.prems(3)] by blast
  have "m = hi - Suc lo" using Suc.hyps(2) by simp
  moreover have "Suc lo \<le> hi" using lt by simp
  ultimately obtain es' es2 fr' where rest:
    "copy_slots (mid s a (oh\<lparr>kvs := es1\<rparr>) b (nh\<lparr>kvs := es3\<rparr>) fr1) a b [Suc lo..<hi]
        = Inr (mid s a (oh\<lparr>kvs := es1\<rparr>\<lparr>kvs := es'\<rparr>) b (nh\<lparr>kvs := es3\<rparr>\<lparr>kvs := es2\<rparr>) fr')"
    "copying s oh0 hi (oh\<lparr>kvs := es1\<rparr>\<lparr>kvs := es'\<rparr>) (nh\<lparr>kvs := es3\<rparr>\<lparr>kvs := es2\<rparr>) fr'"
    using Suc.hyps(1)[OF _ st(2)] Suc.prems(3) by auto
  have "copy_slots (mid s a oh b nh fr) a b [lo..<hi]
              = Inr (mid s a (oh\<lparr>kvs := es'\<rparr>) b (nh\<lparr>kvs := es2\<rparr>) fr')"
    using st(1) rest(1) lt by (simp add: upt_conv_Cons)
  moreover have "copying s oh0 hi (oh\<lparr>kvs := es'\<rparr>) (nh\<lparr>kvs := es2\<rparr>) fr'"
    using rest(2) by simp
  ultimately show ?case by blast
qed

lemma copy_block_step:
  assumes g: "good_funcs s" and t0: "table_ok s oh0" and ab: "a \<noteq> b" "a \<noteq> 0" "b \<noteq> 0" "b \<noteq> kvs_promise"
    and n: "len oh0 = n" "n \<le> len nh"
    and j: "u_btodo oh = j" "u_bdone oh = j" "j < todo_of n"
    and c: "copying s oh0 (block_end n j) oh nh fr"
  shows "\<exists>es' es2 fr'. u_copy_block (mid s a oh b nh fr) a b =
           Inr (True, mid s a (oh\<lparr>u_btodo := Suc j, kvs := es', u_bdone := Suc j\<rparr>) b
                        (nh\<lparr>kvs := es2\<rparr>) fr') \<and>
           copying s oh0 (block_end n (Suc j))
              (oh\<lparr>u_btodo := Suc j, kvs := es', u_bdone := Suc j\<rparr>) (nh\<lparr>kvs := es2\<rparr>) fr'"
proof -
  have np: "0 < n" using table_shape[OF t0] n(1) shape_len_pos[of oh0] by simp
  have lo: "len oh = n" using copyingD(1)[OF c] n(1) by simp
  have be: "block_end n j = j * BLOCK_SIZE" "j * BLOCK_SIZE \<le> block_end n (Suc j)"
    "block_end n (Suc j) \<le> n"
    using block_len(1)[OF j(3) np] by (simp_all add: block_end_def)
  have bl: "j * BLOCK_SIZE + (if n < j * BLOCK_SIZE + BLOCK_SIZE then n - j * BLOCK_SIZE else BLOCK_SIZE)
           = block_end n (Suc j)"
    using j(3) np by (rule block_len(2))
  define oh1 where "oh1 = oh\<lparr>u_btodo := Suc j\<rparr>"
  have c1: "copying s oh0 (j * BLOCK_SIZE) oh1 nh fr"
    using c be(1) by (simp add: oh1_def copying_header)
  obtain es' es2 fr' where sl:
    "copy_slots (mid s a oh1 b nh fr) a b [j * BLOCK_SIZE..<block_end n (Suc j)]
        = Inr (mid s a (oh1\<lparr>kvs := es'\<rparr>) b (nh\<lparr>kvs := es2\<rparr>) fr')"
    "copying s oh0 (block_end n (Suc j)) (oh1\<lparr>kvs := es'\<rparr>) (nh\<lparr>kvs := es2\<rparr>) fr'"
    using copy_slots_run[OF g t0 ab(1) c1 be(2)] be(3) n by blast
  have e3: "\<not> Suc ((n - Suc 0) div BLOCK_SIZE) \<le> j"
    using j(3) by (simp add: todo_of_def)
  have sl': "copy_slots (mid s a (oh\<lparr>u_btodo := Suc j\<rparr>) b nh fr) a b [j * BLOCK_SIZE..<block_end n (Suc j)]
        = Inr (mid s a (oh\<lparr>u_btodo := Suc j, kvs := es'\<rparr>) b (nh\<lparr>kvs := es2\<rparr>) fr')"
    using sl(1) by (simp add: oh1_def)
  have "u_copy_block (mid s a oh b nh fr) a b =
           Inr (True, mid s a (oh\<lparr>u_btodo := Suc j, kvs := es', u_bdone := Suc j\<rparr>) b
                        (nh\<lparr>kvs := es2\<rparr>) fr')"
  proof (cases "n < j * BLOCK_SIZE + BLOCK_SIZE")
    case True
    have "copy_slots (mid s a (oh\<lparr>u_btodo := Suc j\<rparr>) b nh fr) a b
            [j * BLOCK_SIZE..<j * BLOCK_SIZE + (n - j * BLOCK_SIZE)]
        = Inr (mid s a (oh\<lparr>u_btodo := Suc j, kvs := es'\<rparr>) b (nh\<lparr>kvs := es2\<rparr>) fr')"
      using sl' bl True by simp
    then show ?thesis
      using ab lo np j(1,2) True by (simp add: u_copy_block_def Let_def e3)
  next
    case False
    have "copy_slots (mid s a (oh\<lparr>u_btodo := Suc j\<rparr>) b nh fr) a b
            [j * BLOCK_SIZE..<j * BLOCK_SIZE + BLOCK_SIZE]
        = Inr (mid s a (oh\<lparr>u_btodo := Suc j, kvs := es'\<rparr>) b (nh\<lparr>kvs := es2\<rparr>) fr')"
      using sl' bl False by simp
    then show ?thesis
      using ab lo np j(1,2) False by (simp add: u_copy_block_def Let_def e3)
  qed
  moreover have "copying s oh0 (block_end n (Suc j))
              (oh\<lparr>u_btodo := Suc j, kvs := es', u_bdone := Suc j\<rparr>) (nh\<lparr>kvs := es2\<rparr>) fr'"
    using sl(2) by (simp add: oh1_def copying_def)
  ultimately show ?thesis by blast
qed

lemma copy_block_end:
  assumes "a \<noteq> b" "a \<noteq> 0" "b \<noteq> 0" "b \<noteq> kvs_promise" "len oh = n" "0 < n"
    "u_btodo oh = todo_of n" "u_bdone oh = todo_of n"
  shows "u_copy_block (mid s a oh b nh fr) a b =
           Inr (False, mid s a (oh\<lparr>u_btodo := Suc (todo_of n)\<rparr>) b nh fr)"
  using assms by (simp add: u_copy_block_def Let_def todo_of_def)

lemma copy_loop_run:
  assumes g: "good_funcs s" and t0: "table_ok s oh0" and ab: "a \<noteq> b" "a \<noteq> 0" "b \<noteq> 0" "b \<noteq> kvs_promise"
    and n: "len oh0 = n" "n \<le> len nh"
    and j: "u_btodo oh = j" "u_bdone oh = j" "j \<le> todo_of n"
    and c: "copying s oh0 (block_end n j) oh nh fr"
  shows "\<exists>oh' es2 fr'. copy_loop (\<lambda>_. True) (mid s a oh b nh fr) a b =
           Some (Inr (mid s a oh' b (nh\<lparr>kvs := es2\<rparr>) fr')) \<and>
           copying s oh0 n oh' (nh\<lparr>kvs := es2\<rparr>) fr'"
  using j c n(2)
proof (induction "todo_of n - j" arbitrary: j oh nh fr)
  case 0
  then have jt: "j = todo_of n" by simp
  have np: "0 < n" using table_shape[OF t0] n(1) shape_len_pos[of oh0] by simp
  have lo: "len oh = n" using copyingD(1)[OF "0.prems"(4)] n(1) by simp
  have "copy_loop (\<lambda>_. True) (mid s a oh b nh fr) a b =
          Some (Inr (mid s a (oh\<lparr>u_btodo := Suc (todo_of n)\<rparr>) b (nh\<lparr>kvs := kvs nh\<rparr>) fr))"
    using copy_block_end[OF ab lo np, of s nh fr] "0.prems"(1,2) jt
    by (subst copy_loop.simps) simp
  moreover have "copying s oh0 n (oh\<lparr>u_btodo := Suc (todo_of n)\<rparr>) (nh\<lparr>kvs := kvs nh\<rparr>) fr"
    using "0.prems"(4) block_end_todo[OF np] jt by (simp add: copying_header)
  ultimately show ?case by blast
next
  case (Suc m)
  then have jl: "j < todo_of n" by simp
  obtain es1 es3 fr1 where st:
    "u_copy_block (mid s a oh b nh fr) a b =
           Inr (True, mid s a (oh\<lparr>u_btodo := Suc j, kvs := es1, u_bdone := Suc j\<rparr>) b
                        (nh\<lparr>kvs := es3\<rparr>) fr1)"
    "copying s oh0 (block_end n (Suc j))
              (oh\<lparr>u_btodo := Suc j, kvs := es1, u_bdone := Suc j\<rparr>) (nh\<lparr>kvs := es3\<rparr>) fr1"
    using copy_block_step[OF g t0 ab n(1) Suc.prems(5,1,2) jl Suc.prems(4)] by blast
  define oh1 where "oh1 = oh\<lparr>u_btodo := Suc j, kvs := es1, u_bdone := Suc j\<rparr>"
  have "\<exists>oh' es2 fr'. copy_loop (\<lambda>_. True) (mid s a oh1 b (nh\<lparr>kvs := es3\<rparr>) fr1) a b =
           Some (Inr (mid s a oh' b (nh\<lparr>kvs := es3\<rparr>\<lparr>kvs := es2\<rparr>) fr')) \<and>
           copying s oh0 n oh' (nh\<lparr>kvs := es3\<rparr>\<lparr>kvs := es2\<rparr>) fr'"
  proof (rule Suc.hyps(1))
    show "m = todo_of n - Suc j" using Suc.hyps(2) by simp
    show "u_btodo oh1 = Suc j" "u_bdone oh1 = Suc j" by (simp_all add: oh1_def)
    show "Suc j \<le> todo_of n" using jl by simp
    show "copying s oh0 (block_end n (Suc j)) oh1 (nh\<lparr>kvs := es3\<rparr>) fr1"
      using st(2) by (simp add: oh1_def)
    show "n \<le> len (nh\<lparr>kvs := es3\<rparr>)" using Suc.prems(5) by simp
  qed
  then obtain oh' es2 fr' where rest:
    "copy_loop (\<lambda>_. True) (mid s a oh1 b (nh\<lparr>kvs := es3\<rparr>) fr1) a b =
           Some (Inr (mid s a oh' b (nh\<lparr>kvs := es2\<rparr>) fr'))"
    "copying s oh0 n oh' (nh\<lparr>kvs := es2\<rparr>) fr'"
    by auto
  have "copy_loop (\<lambda>_. True) (mid s a oh b nh fr) a b =
           Some (Inr (mid s a oh' b (nh\<lparr>kvs := es2\<rparr>) fr'))"
    using st(1) rest(1) by (subst copy_loop.simps) (simp add: oh1_def)
  then show ?case using rest(2) by blast
qed

lemma table_ok_header:
  "table_ok s (h\<lparr>prev := x\<rparr>) = table_ok s h"
  "table_ok s (h\<lparr>u_btodo := y\<rparr>) = table_ok s h"
  "table_ok s (h\<lparr>u_bdone := z\<rparr>) = table_ok s h"
  by (simp_all add: table_ok_def shape_def chain_ok_def unique_keys_def pos_def)

lemma table_ok_empty:
  assumes "len h = 2 ^ k" "k \<le> 31" "kvs h = replicate (len h) zero_entry"
  shows "table_ok s h"
proof (rule table_okI)
  have l: "length (kvs h) = len h" using assms(3) by (metis length_replicate)
  show "shape h" unfolding shape_def using l assms(1,2) by blast
  have z: "kvs h ! i = zero_entry" if "i < len h" for i
    using that assms(3) by (metis nth_replicate)
  show "slot_ok s (kvs h ! i)" if "i < len h" for i
    using z[OF that] by (simp add: slot_ok_def zero_entry_def)
  show "chain_ok h"
    by (rule chain_okI) (simp add: z zero_entry_def)
  show "unique_keys s h"
    by (rule unique_keysI) (simp add: z zero_entry_def)
qed

lemma lookup_empty: "lookup s (replicate n zero_entry) k = Null"
  by (rule lookup_miss) (simp add: zero_entry_def)

lemma live_empty: "live (replicate n zero_entry) = 0"
  by (simp add: live_def zero_entry_def)

lemma copying_start:
  assumes "len nh = 2 ^ k" "k \<le> 31" "kvs nh = replicate (len nh) zero_entry"
    "length (kvs oh) = len oh"
  shows "copying s oh 0 (oh\<lparr>u_btodo := 0, u_bdone := 0\<rparr>) nh (freed s)"
proof (rule copyingI)
  show "table_ok s nh" using assms(1,2,3) by (rule table_ok_empty)
  have z: "kvs nh ! j = zero_entry" if "j < len nh" for j
    using that assms(3) by (metis nth_replicate)
  show "u_val (kvs nh ! j) \<noteq> Null" if "j < len nh" "u_key (kvs nh ! j) \<noteq> Null" for j
    using that z[of j] by (simp add: zero_entry_def)
  show "lookup s (kvs nh) k = lookup s (take 0 (kvs oh)) k" for k
    using lookup_empty[of s "len nh" k] assms(3) by (simp add: lookup_def)
  show "live (kvs nh) = live (take 0 (kvs oh))"
    using live_empty[of "len nh"] assms(3) by (simp add: live_def)
qed (use assms(4) in \<open>simp_all add: tomb_def\<close>)

lemma resize_unfold:
  assumes "u_nkvs s = 0" "heap s (u_kvs s) = Some oh" "u_kvs s \<noteq> brk s"
    "N = resize_len (changes s) (sint (word_of_int (hashmap_size s) :: 32 word)) (word_of_nat (len oh))"
    "unat N \<noteq> 0"
    "nh = \<lparr>u_btodo = 0, len = unat N, prev = 0, u_bdone = 0, kvs = replicate (unat N) (junk s)\<rparr>"
  shows "u_resize s (u_kvs s) =
     (case the_result (zero_loop (\<lambda>_. True)
              (mid s (u_kvs s) (oh\<lparr>u_btodo := 0, u_bdone := 0\<rparr>) (brk s) nh (freed s)) (brk s)) of
        Inl er \<Rightarrow> Inl er
      | Inr s5 \<Rightarrow>
         (case the_result (copy_loop (\<lambda>_. True) s5 (u_kvs s) (brk s)) of
            Inl er \<Rightarrow> Inl er
          | Inr s6 \<Rightarrow>
             let s7 = push_old_kvs s6 (brk s) (u_kvs s) in
             case cas_kvs s7 (brk s) (u_kvs s) of
               (False, s8) \<Rightarrow> Inl Abort
             | (True, s8) \<Rightarrow>
                (case cas_nkvs s8 0 (brk s) of
                   (False, s9) \<Rightarrow> Inl Abort
                 | (True, s9) \<Rightarrow> Inr (SIZED, s9\<lparr>changes := 0\<rparr>))))"
proof -
  have hs: "hashmap_size (s\<lparr>u_nkvs := kvs_promise\<rparr>) = hashmap_size s"
    by (simp add: hashmap_size_def)
  have m: "s\<lparr>brk := Suc (brk s),
             heap := (heap s)(brk s \<mapsto> nh, u_kvs s \<mapsto> oh\<lparr>u_btodo := 0, u_bdone := 0\<rparr>),
             u_nkvs := brk s\<rparr>
      = mid s (u_kvs s) (oh\<lparr>u_btodo := 0, u_bdone := 0\<rparr>) (brk s) nh (freed s)"
    using assms(3) by (simp add: mid_def fun_upd_twist)
  show ?thesis
    using assms(1,2,3,5)
    by (simp add: u_resize_def cas_nkvs_def header_new_def Let_def upd_header_def hs
          assms(4)[symmetric] assms(6)[symmetric] m
          cong: sum.case_cong prod.case_cong bool.case_cong)
qed

lemma unat_small: "m < 2 ^ 32 \<Longrightarrow> unat (word_of_nat m :: 32 word) = m"
  by (simp add: unat_of_nat)

lemma new_len:
  assumes "n = 2 ^ k" "k \<le> 31" "N = resize_len c sz (word_of_nat n)" "unat N \<noteq> 0"
  shows "(unat N = n \<and> c \<noteq> 0) \<or> (unat N = 2 * n \<and> k \<le> 30)"
proof -
  have l: "n < 2 ^ 32" using pow_le_31[OF assms(2)] assms(1) by simp
  have un: "unat (word_of_nat n :: 32 word) = n" using l by (rule unat_small)
  have m: "(word_of_nat n :: 32 word) * 2 = word_of_nat (n * 2)" by simp
  have u2: "unat ((word_of_nat n :: 32 word) * 2) = (n * 2) mod 2 ^ 32"
    by (simp only: m unat_of_nat) simp
  show ?thesis
  proof (cases "word_of_nat n div 4 < c \<and> ratio_below sz (word_of_nat n)")
    case True
    then have "c \<noteq> 0" by (auto simp: word_less_nat_alt)
    then show ?thesis using True un assms(3) by (simp add: resize_len_def)
  next
    case False
    then have "N = word_of_nat n * 2" using assms(3) unfolding resize_len_def by auto
    then have N: "unat N = (n * 2) mod 2 ^ 32" using u2 by simp
    have "k \<noteq> 31"
    proof
      assume "k = 31"
      then have "n * 2 = 2 ^ 32" using assms(1) by simp
      then show False using N assms(4) by simp
    qed
    then have k: "k \<le> 30" using assms(2) by simp
    then have "n * 2 < 2 ^ 32" using pow_le_31[of "Suc k"] assms(1) by simp
    then show ?thesis using N k by simp
  qed
qed

lemma new_len_zero:
  assumes "n = 2 ^ k" "k \<le> 31" "N = resize_len c sz (word_of_nat n)" "unat N = 0"
  shows "k = 31"
proof (rule ccontr)
  assume "k \<noteq> 31"
  then have k: "k \<le> 30" using assms(2) by simp
  have l: "n < 2 ^ 32" "n * 2 < 2 ^ 32" "0 < n"
    using pow_le_31[of k] pow_le_31[of "Suc k"] assms(1) k by simp_all
  have m: "(word_of_nat n :: 32 word) * 2 = word_of_nat (n * 2)" by simp
  have "unat ((word_of_nat n :: 32 word) * 2) = n * 2"
    using unat_small[OF l(2)] by (simp only: m)
  then have "unat N = n \<or> unat N = n * 2"
    using unat_small[OF l(1)] assms(3) unfolding resize_len_def by auto
  then show False using assms(4) l(3) by auto
qed

lemma resize_run:
  assumes w: "well_formed s" and hh: "heap s (u_kvs s) = Some oh"
    and N: "N = resize_len (changes s) (sint (word_of_int (hashmap_size s) :: 32 word))
                  (word_of_nat (len oh))"
    and nz: "unat N \<noteq> 0"
  shows "\<exists>s' nh'. u_resize s (u_kvs s) = Inr (SIZED, s') \<and> well_formed s' \<and>
           (\<forall>k. mapping s' k = mapping s k) \<and> u_size s' = u_size s \<and> changes s' = 0 \<and>
           equals_func s' = equals_func s \<and> hash_func s' = hash_func s \<and>
           u_kvs s' = brk s \<and> heap s' (brk s) = Some nh' \<and> len nh' = unat N \<and>
           live_count s' = live_count s \<and>
           freed s' = freed s @ map u_key (filter tomb (kvs oh))"
proof -
  from w obtain h where wh: "heap s (u_kvs s) = Some h" "table_ok s h"
    "u_size s = word_of_nat (live (kvs h))"
    and g: "good_funcs s" and nk: "u_nkvs s = 0" and a2: "2 \<le> u_kvs s" and ab: "u_kvs s < brk s"
    and top: "\<forall>a\<ge>brk s. heap s a = None" by (rule wfD)
  have ho: "h = oh" using wh(1) hh by simp
  have t0: "table_ok s oh" and sz: "u_size s = word_of_nat (live (kvs oh))"
    using wh(2,3) ho by simp_all
  define a where "a = u_kvs s"
  define b where "b = brk s"
  have ne: "a \<noteq> b" "a \<noteq> 0" "b \<noteq> 0" "b \<noteq> kvs_promise"
    using a2 ab by (simp_all add: a_def b_def kvs_promise_def)
  have sho: "shape oh" using t0 by (rule table_shape)
  then obtain k where k: "len oh = 2 ^ k" "k \<le> 31" by (auto simp: shape_def)
  obtain k' where k': "unat N = 2 ^ k'" "k' \<le> 31" "len oh \<le> unat N"
  proof -
    have "(unat N = len oh \<and> changes s \<noteq> 0) \<or> (unat N = 2 * len oh \<and> k \<le> 30)"
      using k N nz by (rule new_len)
    then show ?thesis
    proof
      assume "unat N = len oh \<and> changes s \<noteq> 0"
      then show ?thesis using that[of k] k by simp
    next
      assume "unat N = 2 * len oh \<and> k \<le> 30"
      then show ?thesis using that[of "Suc k"] k by simp
    qed
  qed
  have np: "0 < unat N" "unat N \<noteq> 0" using k'(1) by simp_all
  define oh1 where "oh1 = oh\<lparr>u_btodo := 0, u_bdone := 0\<rparr>"
  define nh0 where "nh0 = \<lparr>u_btodo = 0, len = unat N, prev = 0, u_bdone = 0,
                            kvs = replicate (unat N) (junk s)\<rparr>"
  define nh1 where "nh1 = nh0\<lparr>u_btodo := Suc (todo_of (unat N)),
                               kvs := replicate (unat N) zero_entry,
                               u_bdone := todo_of (unat N)\<rparr>"
  have unf: "u_resize s a =
     (case the_result (zero_loop (\<lambda>_. True) (mid s a oh1 b nh0 (freed s)) b) of
        Inl er \<Rightarrow> Inl er
      | Inr s5 \<Rightarrow>
         (case the_result (copy_loop (\<lambda>_. True) s5 a b) of
            Inl er \<Rightarrow> Inl er
          | Inr s6 \<Rightarrow>
             let s7 = push_old_kvs s6 b a in
             case cas_kvs s7 b a of
               (False, s8) \<Rightarrow> Inl Abort
             | (True, s8) \<Rightarrow>
                (case cas_nkvs s8 0 b of
                   (False, s9) \<Rightarrow> Inl Abort
                 | (True, s9) \<Rightarrow> Inr (SIZED, s9\<lparr>changes := 0\<rparr>))))"
    unfolding a_def b_def oh1_def
    using nk hh _ N np(2) nh0_def
  proof (rule resize_unfold)
    show "u_kvs s \<noteq> brk s" using ab by simp
  qed
  have zero: "zero_loop (\<lambda>_. True) (mid s a oh1 b nh0 (freed s)) b =
                Some (Inr (mid s a oh1 b nh1 (freed s)))"
    unfolding nh1_def
  proof (rule zero_loop_run[OF ne(1) _ np(1)])
    show "zeroed (block_end (unat N) 0) (kvs nh0)" by (simp add: block_end_def zeroed_def)
  qed (simp_all add: nh0_def)
  have cs: "copying s oh 0 oh1 nh1 (freed s)"
    unfolding oh1_def
  proof (rule copying_start)
    show "len nh1 = 2 ^ k'" using k'(1) by (simp add: nh1_def nh0_def)
    show "k' \<le> 31" by (rule k'(2))
    show "kvs nh1 = replicate (len nh1) zero_entry" by (simp add: nh1_def nh0_def)
    show "length (kvs oh) = len oh" using sho by (rule shape_length)
  qed
  have "\<exists>oh' es2 fr'. copy_loop (\<lambda>_. True) (mid s a oh1 b nh1 (freed s)) a b =
           Some (Inr (mid s a oh' b (nh1\<lparr>kvs := es2\<rparr>) fr')) \<and>
           copying s oh (len oh) oh' (nh1\<lparr>kvs := es2\<rparr>) fr'"
  proof (rule copy_loop_run[OF g t0 ne refl])
    show "len oh \<le> len nh1" using k'(3) by (simp add: nh1_def nh0_def)
    show "u_btodo oh1 = 0" "u_bdone oh1 = 0" by (simp_all add: oh1_def)
    show "0 \<le> todo_of (len oh)" by simp
    show "copying s oh (block_end (len oh) 0) oh1 nh1 (freed s)"
      using cs by (simp add: block_end_def)
  qed
  then obtain oh' es2 fr' where copy:
    "copy_loop (\<lambda>_. True) (mid s a oh1 b nh1 (freed s)) a b =
           Some (Inr (mid s a oh' b (nh1\<lparr>kvs := es2\<rparr>) fr'))"
    and c: "copying s oh (len oh) oh' (nh1\<lparr>kvs := es2\<rparr>) fr'"
    by blast
  define nh2 where "nh2 = nh1\<lparr>kvs := es2\<rparr>"
  define nh3 where "nh3 = nh2\<lparr>prev := a\<rparr>"
  define s' where "s' = (mid s a (oh'\<lparr>u_btodo := clock s\<rparr>) b nh3 fr')
                           \<lparr>u_kvs := b, u_nkvs := 0, changes := 0\<rparr>"
  note cD = copyingD[OF c[folded nh2_def]]
  have run: "u_resize s a = Inr (SIZED, s')"
    using ne(1)
    by (simp add: unf zero copy the_result_def push_old_kvs_def Let_def current_time_def
          cas_kvs_def cas_nkvs_def s'_def nh3_def nh2_def a_def[symmetric])
  have ta: "take (len oh) (kvs oh) = kvs oh" using sho by (simp add: shape_length)
  have e: "equals_func s' = equals_func s" "hash_func s' = hash_func s"
    by (simp_all add: s'_def)
  have hb: "heap s' b = Some nh3" by (simp add: s'_def)
  have t3: "table_ok s' nh3"
    using cD(4) by (simp only: table_ok_funcs[OF e] nh3_def table_ok_header)
  have l3: "live (kvs nh3) = live (kvs oh)" using cD(7) ta by (simp add: nh3_def)
  have "well_formed s'"
    unfolding well_formed_def
  proof (intro conjI exI[of _ nh3])
    show "good_funcs s'" using g by (simp only: good_funcs_funcs[OF e])
    show "u_nkvs s' = 0" by (simp add: s'_def)
    show "2 \<le> u_kvs s'" using a2 ab by (simp add: s'_def b_def)
    show "u_kvs s' < brk s'" by (simp add: s'_def)
    show "\<forall>x\<ge>brk s'. heap s' x = None"
      using top ab by (simp add: s'_def mid_def a_def b_def)
    show "heap s' (u_kvs s') = Some nh3" by (simp add: s'_def)
    show "table_ok s' nh3" by (rule t3)
    show "u_size s' = word_of_nat (live (kvs nh3))" using sz l3 by (simp add: s'_def)
  qed
  moreover have "mapping s' k = mapping s k" for k
  proof -
    have "mapping s' k = lookup s' (kvs nh3) k"
      by (rule mapping_cur) (simp add: s'_def)
    also have "\<dots> = lookup s (kvs nh2) k"
      by (simp add: lookup_funcs[OF e(1)] nh3_def)
    also have "\<dots> = lookup s (kvs oh) k" using cD(6)[of k] ta by simp
    also have "\<dots> = mapping s k" using mapping_cur[OF hh, of k] by simp
    finally show ?thesis .
  qed
  moreover have "len nh3 = unat N" by (simp add: nh3_def nh2_def nh1_def nh0_def)
  moreover have "live_count s' = live_count s"
    using l3 hh by (simp add: live_count_def getkvs_def s'_def)
  moreover have "freed s' = freed s @ map u_key (filter tomb (kvs oh))"
    using cD(8) ta by (simp add: s'_def)
  moreover have "u_size s' = u_size s" "changes s' = 0" "u_kvs s' = brk s"
    by (simp_all add: s'_def b_def)
  ultimately show ?thesis
    using run e hb unfolding a_def b_def by blast
qed

lemma resize_abort:
  assumes w: "well_formed s" and hh: "heap s (u_kvs s) = Some oh"
    and N: "unat (resize_len (changes s) (sint (word_of_int (hashmap_size s) :: 32 word))
                  (word_of_nat (len oh))) = 0"
  shows "u_resize s (u_kvs s) = Inl Abort"
proof -
  from w have nk: "u_nkvs s = 0" and ab: "u_kvs s < brk s" unfolding well_formed_def by blast+
  have hs: "hashmap_size (s\<lparr>u_nkvs := kvs_promise\<rparr>) = hashmap_size s"
    by (simp add: hashmap_size_def)
  show ?thesis
    using nk hh ab N
    by (simp add: u_resize_def cas_nkvs_def header_new_def Let_def hs)
qed


section \<open>The public operations on well-formed maps\<close>

lemma putif_at_limit:
  assumes "heap s a = Some h" "shape h" "key \<noteq> Null" "hash \<noteq> 0"
    "\<forall>d<REPROBE_LIMIT. skips s h key hash (pos h hash d)"
  shows "u_putif s False a key hash val oldval = u_resize s a"
proof -
  define d where "d = REPROBE_LIMIT - 1"
  have d: "d < REPROBE_LIMIT" "REPROBE_LIMIT \<le> Suc d" by (simp_all add: d_def REPROBE_LIMIT_def)
  have sk: "\<forall>d'<d. skips s h key hash (pos h hash d')" using assms(5) d by simp
  have "putif_probe s False a key hash val oldval (home h hash) 0 =
        putif_probe s False a key hash val oldval ((nxt h ^^ d) (home h hash)) d"
    using probe_from_home[OF assms(1,2) sk, of False val oldval] d by simp
  also have "\<dots> = Some (Inr Limit)"
    using assms(1,2,5) d by (intro probe_limit[where h = h]) (simp_all add: unat_walk pos_less)
  finally show ?thesis
    using assms(1,3,4) by (simp add: u_putif_def putif_with_def the_result_def home_def)
qed

lemma stuck_shift:
  assumes "stuck s1 key" "\<forall>k. mapping s1 k = mapping s k"
    "equals_func s1 = equals_func s" "hash_func s1 = hash_func s"
  shows "stuck s key"
proof -
  have e: "mapping s1 = mapping s" using assms(2) by (simp add: fun_eq_iff)
  show ?thesis using assms(1) unfolding stuck_def e assms(3,4) .
qed

lemma putif_post_shift:
  assumes "putif_post s1 key val oldval r s'" "\<forall>k. mapping s1 k = mapping s k"
    "equals_func s1 = equals_func s" "hash_func s1 = hash_func s" "live_count s1 = live_count s"
  shows "putif_post s key val oldval r s'"
proof -
  have e: "mapping s1 = mapping s" using assms(2) by (simp add: fun_eq_iff)
  show ?thesis using assms(1) unfolding putif_post_def e assms(3,4,5) .
qed

lemma mapping_user: "well_formed s \<Longrightarrow> user_ptr (mapping s key)"
proof -
  assume "well_formed s"
  then obtain h where "heap s (u_kvs s) = Some h" "table_ok s h" "good_funcs s" by (rule wfD)
  then show ?thesis using table_lookup_user[of s h key] mapping_cur[of s h key] by simp
qed

lemma putif_step:
  assumes w: "well_formed s" and k: "key \<noteq> Null" "user_ptr key" and v: "user_ptr val"
  shows "(settles s key \<and>
          (\<exists>s'. u_putif s False (u_kvs s) key (key_hash s key) val oldval = Inr (mapping s key, s') \<and>
               putif_post s key val oldval (mapping s key) s')) \<or>
         (\<not> settles s key \<and>
          u_putif s False (u_kvs s) key (key_hash s key) val oldval = u_resize s (u_kvs s))"
proof -
  from w obtain h where hh: "heap s (u_kvs s) = Some h" and t: "table_ok s h"
    and g: "good_funcs s" by (rule wfD)
  have sh: "shape h" using t by (rule table_shape)
  have st: "settles s key = (\<exists>d<REPROBE_LIMIT. rests s h key (pos h (key_hash s key) d))"
    using hh by (simp add: settles_def getkvs_def)
  show ?thesis
  proof (cases "\<exists>d<REPROBE_LIMIT. rests s h key (pos h (key_hash s key) d)")
    case True
    then obtain D where D: "D < REPROBE_LIMIT" "rests s h key (pos h (key_hash s key) D)"
      "\<forall>d'<D. \<not> rests s h key (pos h (key_hash s key) d')" by (rule first_rest)
    have "settles s key" using True unfolding st .
    moreover from putif_settles[OF w hh k v D, of oldval]
    have "\<exists>s'. u_putif s False (u_kvs s) key (key_hash s key) val oldval = Inr (mapping s key, s') \<and>
               putif_post s key val oldval (mapping s key) s'"
      unfolding putif_post_def by blast
    ultimately show ?thesis by blast
  next
    case False
    then have "\<forall>d<REPROBE_LIMIT. skips s h key (key_hash s key) (pos h (key_hash s key) d)"
      using skips_iff[OF g t, of _ key] sh by (simp add: pos_less)
    then have "u_putif s False (u_kvs s) key (key_hash s key) val oldval = u_resize s (u_kvs s)"
      using hh sh k(1) key_hash_nonzero by (intro putif_at_limit)
    moreover have "\<not> settles s key" using False unfolding st .
    ultimately show ?thesis by blast
  qed
qed

lemma resize_step:
  assumes w: "well_formed s"
  shows "(u_resize s (u_kvs s) = Inl Abort \<and> slots s = 2 ^ 31) \<or>
         (\<exists>s'. u_resize s (u_kvs s) = Inr (SIZED, s') \<and> well_formed s' \<and>
            (\<forall>k. mapping s' k = mapping s k) \<and> equals_func s' = equals_func s \<and>
            hash_func s' = hash_func s \<and> live_count s' = live_count s \<and>
            u_kvs s' \<noteq> u_kvs s \<and> rank s' < rank s)"
proof -
  from w obtain oh where hh: "heap s (u_kvs s) = Some oh" and t: "table_ok s oh"
    and ab: "u_kvs s < brk s" by (rule wfD)
  define N where "N = resize_len (changes s) (sint (word_of_int (hashmap_size s) :: 32 word))
                  (word_of_nat (len oh))"
  have "shape oh" using t by (rule table_shape)
  then obtain k where k: "len oh = 2 ^ k" "k \<le> 31" by (auto simp: shape_def)
  show ?thesis
  proof (cases "unat N = 0")
    case True
    have "k = 31" using k N_def True by (rule new_len_zero)
    then have "slots s = 2 ^ 31" using hh k(1) by (simp add: slots_def getkvs_def)
    then show ?thesis using resize_abort[OF w hh] True by (simp add: N_def)
  next
    case False
    from resize_run[OF w hh N_def False] obtain s' nh' where r:
      "u_resize s (u_kvs s) = Inr (SIZED, s')" "well_formed s'" "\<forall>k. mapping s' k = mapping s k"
      "changes s' = 0" "equals_func s' = equals_func s" "hash_func s' = hash_func s"
      "u_kvs s' = brk s" "heap s' (brk s) = Some nh'" "len nh' = unat N"
      "live_count s' = live_count s" by blast
    have nl: "(unat N = len oh \<and> changes s \<noteq> 0) \<or> (unat N = 2 * len oh \<and> k \<le> 30)"
      using k N_def False by (rule new_len)
    have lo: "0 < len oh" "len oh \<le> 2 ^ 31" using k pow_le_31[of k] by simp_all
    have r1: "rank s = 2 * (2 ^ 32 - len oh) + (if changes s = 0 then 0 else 1)"
      using hh by (simp add: rank_def getkvs_def)
    have r2: "rank s' = 2 * (2 ^ 32 - unat N)"
      using r(4,7,8,9) by (simp add: rank_def getkvs_def)
    have "rank s' < rank s"
      using nl lo unfolding r1 r2 by auto
    then show ?thesis using r ab by auto
  qed
qed

lemma get_wf:
  assumes "well_formed s"
  shows "hashmap_get s key = Some (Inr (mapping s key, s))"
proof -
  from assms obtain h where hh: "heap s (u_kvs s) = Some h" and t: "table_ok s h"
    and g: "good_funcs s" by (rule wfD)
  have "u_get s (getkvs s) key (key_hash s key) = Inr (lookup s (kvs h) key)"
    using get_lookup[OF g t, of key] hh by (simp add: u_get_def getkvs_def home_def)
  then have "u_get s (getkvs s) key (key_hash s key) = Inr (mapping s key)"
    using mapping_cur[OF hh, of key] by simp
  moreover have "mapping s key \<noteq> SIZED"
    using mapping_user[OF assms, of key] by (simp add: user_ptr_def)
  ultimately show ?thesis by (rule hashmap_get_direct)
qed

lemma putif_retry_run:
  assumes "well_formed s" "u_kvs s \<noteq> a" "key \<noteq> Null" "user_ptr key" "user_ptr val"
  shows "(putif_retry s a key (key_hash s key) val oldval SIZED = Some (Inl Abort) \<and> stuck s key) \<or>
         (\<exists>r s'. putif_retry s a key (key_hash s key) val oldval SIZED = Some (Inr (r, s')) \<and>
                  putif_post s key val oldval r s')"
  using assms(1,2)
proof (induction "rank s" arbitrary: s a rule: less_induct)
  case less
  have hr: "u_help_resize s a = Inr s" using less.prems(2) by (simp add: u_help_resize_def)
  have unf: "putif_retry s a key (key_hash s key) val oldval SIZED =
      (case u_putif s False (u_kvs s) key (key_hash s key) val oldval of
         Inl er \<Rightarrow> Some (Inl er)
       | Inr (res1, s2) \<Rightarrow> putif_retry s2 (u_kvs s) key (key_hash s key) val oldval res1)"
    by (subst putif_retry.simps) (simp add: hr getkvs_def cong: sum.case_cong prod.case_cong)
  from putif_step[OF less.prems(1) assms(3,4,5), of oldval] show ?case
  proof
    assume "settles s key \<and>
          (\<exists>s'. u_putif s False (u_kvs s) key (key_hash s key) val oldval = Inr (mapping s key, s') \<and>
               putif_post s key val oldval (mapping s key) s')"
    then obtain s' where s': "u_putif s False (u_kvs s) key (key_hash s key) val oldval = Inr (mapping s key, s')"
      "putif_post s key val oldval (mapping s key) s'" by blast
    have "mapping s key \<noteq> SIZED"
      using mapping_user[OF less.prems(1), of key] by (simp add: user_ptr_def)
    then have "putif_retry s a key (key_hash s key) val oldval SIZED = Some (Inr (mapping s key, s'))"
      unfolding unf s'(1) by (simp add: putif_retry.simps)
    then show ?case using s'(2) by blast
  next
    assume "\<not> settles s key \<and>
          u_putif s False (u_kvs s) key (key_hash s key) val oldval = u_resize s (u_kvs s)"
    then have ns: "\<not> settles s key"
      and lim: "u_putif s False (u_kvs s) key (key_hash s key) val oldval = u_resize s (u_kvs s)"
      by simp_all
    from resize_step[OF less.prems(1)] show ?case
    proof
      assume ab: "u_resize s (u_kvs s) = Inl Abort \<and> slots s = 2 ^ 31"
      have "stuck s key"
        unfolding stuck_def using less.prems(1) ns ab by (intro exI[of _ s]) simp
      then show ?case using ab[THEN conjunct1] unfolding unf lim by simp
    next
      assume "\<exists>s'. u_resize s (u_kvs s) = Inr (SIZED, s') \<and> well_formed s' \<and>
            (\<forall>k. mapping s' k = mapping s k) \<and> equals_func s' = equals_func s \<and>
            hash_func s' = hash_func s \<and> live_count s' = live_count s \<and>
            u_kvs s' \<noteq> u_kvs s \<and> rank s' < rank s"
      then obtain s1 where s1: "u_resize s (u_kvs s) = Inr (SIZED, s1)" "well_formed s1"
        "\<forall>k. mapping s1 k = mapping s k" "equals_func s1 = equals_func s"
        "hash_func s1 = hash_func s" "live_count s1 = live_count s"
        "u_kvs s1 \<noteq> u_kvs s" "rank s1 < rank s" by blast
      have kh: "key_hash s1 key = key_hash s key" using s1(5) by (rule key_hash_funcs)
      have step: "putif_retry s a key (key_hash s key) val oldval SIZED =
            putif_retry s1 (u_kvs s) key (key_hash s1 key) val oldval SIZED"
        unfolding unf lim s1(1) kh by simp
      from less.hyps[OF s1(8) s1(2) s1(7)] show ?case
      proof
        assume ab: "putif_retry s1 (u_kvs s) key (key_hash s1 key) val oldval SIZED = Some (Inl Abort) \<and>
                    stuck s1 key"
        have "stuck s key" using ab[THEN conjunct2] s1(3,4,5) by (rule stuck_shift)
        then show ?case using ab[THEN conjunct1] unfolding step by simp
      next
        assume "\<exists>r s'. putif_retry s1 (u_kvs s) key (key_hash s1 key) val oldval SIZED = Some (Inr (r, s')) \<and>
                  putif_post s1 key val oldval r s'"
        then obtain r s' where rs: "putif_retry s1 (u_kvs s) key (key_hash s1 key) val oldval SIZED = Some (Inr (r, s'))"
          "putif_post s1 key val oldval r s'" by blast
        have "putif_post s key val oldval r s'"
          using rs(2) s1(3,4,5,6) by (rule putif_post_shift)
        then show ?case using rs(1) unfolding step by blast
      qed
    qed
  qed
qed

lemma putif_run:
  assumes w: "well_formed s" and k: "key \<noteq> Null" "user_ptr key" and v: "user_ptr val"
  shows "(hashmap_putif s key val oldval = Some (Inl Abort) \<and> \<not> settles s key \<and> stuck s key) \<or>
         (\<exists>r s'. hashmap_putif s key val oldval = Some (Inr (r, s')) \<and>
                  putif_post s key val oldval r s')"
proof -
  have unf: "hashmap_putif s key val oldval =
      (case u_putif s False (u_kvs s) key (key_hash s key) val oldval of
         Inl er \<Rightarrow> Some (Inl er)
       | Inr (res, s1) \<Rightarrow> putif_retry s1 (u_kvs s) key (key_hash s key) val oldval res)"
    by (simp add: hashmap_putif_def getkvs_def Let_def cong: sum.case_cong prod.case_cong)
  from putif_step[OF w k v, of oldval] show ?thesis
  proof
    assume "settles s key \<and>
          (\<exists>s'. u_putif s False (u_kvs s) key (key_hash s key) val oldval = Inr (mapping s key, s') \<and>
               putif_post s key val oldval (mapping s key) s')"
    then obtain s' where s': "u_putif s False (u_kvs s) key (key_hash s key) val oldval = Inr (mapping s key, s')"
      "putif_post s key val oldval (mapping s key) s'" by blast
    have "mapping s key \<noteq> SIZED"
      using mapping_user[OF w, of key] by (simp add: user_ptr_def)
    then have "hashmap_putif s key val oldval = Some (Inr (mapping s key, s'))"
      unfolding unf s'(1) by (simp add: putif_retry.simps)
    then show ?thesis using s'(2) by blast
  next
    assume "\<not> settles s key \<and>
          u_putif s False (u_kvs s) key (key_hash s key) val oldval = u_resize s (u_kvs s)"
    then have ns: "\<not> settles s key"
      and lim: "u_putif s False (u_kvs s) key (key_hash s key) val oldval = u_resize s (u_kvs s)"
      by simp_all
    from resize_step[OF w] show ?thesis
    proof
      assume ab: "u_resize s (u_kvs s) = Inl Abort \<and> slots s = 2 ^ 31"
      have "stuck s key"
        unfolding stuck_def using w ns ab by (intro exI[of _ s]) simp
      then show ?thesis using ab[THEN conjunct1] ns unfolding unf lim by simp
    next
      assume "\<exists>s'. u_resize s (u_kvs s) = Inr (SIZED, s') \<and> well_formed s' \<and>
            (\<forall>k. mapping s' k = mapping s k) \<and> equals_func s' = equals_func s \<and>
            hash_func s' = hash_func s \<and> live_count s' = live_count s \<and>
            u_kvs s' \<noteq> u_kvs s \<and> rank s' < rank s"
      then obtain s1 where s1: "u_resize s (u_kvs s) = Inr (SIZED, s1)" "well_formed s1"
        "\<forall>k. mapping s1 k = mapping s k" "equals_func s1 = equals_func s"
        "hash_func s1 = hash_func s" "live_count s1 = live_count s"
        "u_kvs s1 \<noteq> u_kvs s" by blast
      have kh: "key_hash s1 key = key_hash s key" using s1(5) by (rule key_hash_funcs)
      have step: "hashmap_putif s key val oldval =
            putif_retry s1 (u_kvs s) key (key_hash s1 key) val oldval SIZED"
        unfolding unf lim s1(1) kh by simp
      from putif_retry_run[OF s1(2) s1(7) k v, of oldval] show ?thesis
      proof
        assume ab: "putif_retry s1 (u_kvs s) key (key_hash s1 key) val oldval SIZED = Some (Inl Abort) \<and>
                    stuck s1 key"
        have "stuck s key" using ab[THEN conjunct2] s1(3,4,5) by (rule stuck_shift)
        then show ?thesis using ab[THEN conjunct1] ns unfolding step by simp
      next
        assume "\<exists>r s'. putif_retry s1 (u_kvs s) key (key_hash s1 key) val oldval SIZED = Some (Inr (r, s')) \<and>
                  putif_post s1 key val oldval r s'"
        then obtain r s' where rs: "putif_retry s1 (u_kvs s) key (key_hash s1 key) val oldval SIZED = Some (Inr (r, s'))"
          "putif_post s1 key val oldval r s'" by blast
        have "putif_post s key val oldval r s'"
          using rs(2) s1(3,4,5,6) by (rule putif_post_shift)
        then show ?thesis using rs(1) unfolding step by blast
      qed
    qed
  qed
qed

lemma size_live:
  assumes "well_formed s"
  shows "hashmap_size s = int (live_count s)"
proof -
  from assms obtain h where hh: "heap s (u_kvs s) = Some h" and t: "table_ok s h"
    and sz: "u_size s = word_of_nat (live (kvs h))" by (rule wfD)
  define n where "n = live (kvs h)"
  have sh: "shape h" using t by (rule table_shape)
  then obtain k where k: "k \<le> 31" "len h = 2 ^ k" by (auto simp: shape_def)
  have "n \<le> len h" using live_le[of "kvs h"] sh by (simp add: n_def shape_length)
  then have "n \<le> 2147483648" using pow_le_31[OF k(1)] k(2) by simp
  then have b: "int n < 2 ^ 63" by simp
  have "- (2 ^ 63) \<le> int n" by (rule order_trans[of _ 0]) simp_all
  then have "signed_take_bit 63 (int n) = int n"
    using b by (rule signed_take_bit_int_eq_self)
  then have "sint (word_of_nat n :: 64 word) = int n" by (simp add: signed_of_nat)
  then show ?thesis
    using hh sz by (simp add: hashmap_size_def live_count_def getkvs_def n_def Let_def)
qed

lemma live_count_keys: "live_count s = length (mapped_keys s)"
  by (simp add: live_count_def mapped_keys_def live_def split: option.splits)

lemma apart_filter_map:
  assumes "\<forall>i<length xs. \<forall>j<length xs. P (xs ! i) \<longrightarrow> P (xs ! j) \<longrightarrow>
             R (f (xs ! i)) (f (xs ! j)) \<longrightarrow> i = j"
  shows "apart R (map f (filter P xs))"
  using assms
proof (induction xs)
  case Nil
  show ?case by simp
next
  case (Cons x xs)
  have tl: "\<forall>i<length xs. \<forall>j<length xs. P (xs ! i) \<longrightarrow> P (xs ! j) \<longrightarrow>
             R (f (xs ! i)) (f (xs ! j)) \<longrightarrow> i = j"
  proof (intro allI impI)
    fix i j assume a: "i < length xs" "j < length xs" "P (xs ! i)" "P (xs ! j)"
      "R (f (xs ! i)) (f (xs ! j))"
    then have "Suc i = Suc j" using Cons.prems[rule_format, of "Suc i" "Suc j"] by simp
    then show "i = j" by simp
  qed
  have hd: "\<not> R (f x) y" if "P x" "y \<in> set (map f (filter P xs))" for y
  proof
    assume r: "R (f x) y"
    from that(2) obtain e where e: "e \<in> set xs" "P e" "y = f e" by auto
    then obtain j where j: "j < length xs" "e = xs ! j" by (auto simp: in_set_conv_nth)
    have "0 = Suc j" using Cons.prems[rule_format, of 0 "Suc j"] that(1) e j r by simp
    then show False by simp
  qed
  show ?case using Cons.IH[OF tl] hd by simp
qed

lemma mapped_apart:
  assumes "well_formed s"
  shows "apart (equals_func s) (mapped_keys s)"
proof -
  from assms obtain h where hh: "heap s (u_kvs s) = Some h" and t: "table_ok s h" by (rule wfD)
  have sh: "shape h" using t by (rule table_shape)
  have "apart (equals_func s) (map u_key (filter (\<lambda>e. u_val e \<noteq> Null) (kvs h)))"
  proof (rule apart_filter_map, intro allI impI)
    fix i j assume a: "i < length (kvs h)" "j < length (kvs h)" "u_val (kvs h ! i) \<noteq> Null"
      "u_val (kvs h ! j) \<noteq> Null" "equals_func s (u_key (kvs h ! i)) (u_key (kvs h ! j))"
    have l: "i < len h" "j < len h" using a(1,2) sh by (simp_all add: shape_length)
    have "u_key (kvs h ! i) \<noteq> Null" "u_key (kvs h ! j) \<noteq> Null"
      using table_slot[OF t l(1)] table_slot[OF t l(2)] a(3,4) by (auto simp: slot_ok_def)
    then show "i = j" using unique_keysD[OF table_unique[OF t] l] a(5) by simp
  qed
  then show ?thesis using hh by (simp add: mapped_keys_def getkvs_def)
qed

lemma mapped_iff:
  assumes "well_formed s"
  shows "(\<exists>x\<in>set (mapped_keys s). equals_func s x k) \<longleftrightarrow> mapping s k \<noteq> Null"
proof -
  from assms obtain h where hh: "heap s (u_kvs s) = Some h" and t: "table_ok s h"
    and g: "good_funcs s" by (rule wfD)
  have sh: "shape h" using t by (rule table_shape)
  have mk: "mapped_keys s = map u_key (filter (\<lambda>e. u_val e \<noteq> Null) (kvs h))"
    using hh by (simp add: mapped_keys_def getkvs_def)
  have mp: "mapping s k = lookup s (kvs h) k" using hh by (rule mapping_cur)
  show ?thesis
  proof
    assume "\<exists>x\<in>set (mapped_keys s). equals_func s x k"
    then obtain e where e: "e \<in> set (kvs h)" "u_val e \<noteq> Null" "equals_func s (u_key e) k"
      unfolding mk by auto
    then obtain i where i: "i < length (kvs h)" "e = kvs h ! i" by (auto simp: in_set_conv_nth)
    have l: "i < len h" using i(1) sh by (simp add: shape_length)
    have kn: "u_key (kvs h ! i) \<noteq> Null"
      using table_slot[OF t l] e(2) i(2) by (auto simp: slot_ok_def)
    have "lookup s (kvs h) k = u_val (kvs h ! i)"
      using g t l kn e(3)[unfolded i(2)] by (rule table_lookup_hit)
    then show "mapping s k \<noteq> Null" using e(2) i(2) mp by simp
  next
    assume n: "mapping s k \<noteq> Null"
    from lookup_cases[OF g t, of k] n mp
    obtain i where i: "i < len h" "u_key (kvs h ! i) \<noteq> Null"
      "equals_func s (u_key (kvs h ! i)) k" "lookup s (kvs h) k = u_val (kvs h ! i)"
      by auto
    have "kvs h ! i \<in> set (kvs h)" using i(1) sh by (simp add: shape_length)
    moreover have "u_val (kvs h ! i) \<noteq> Null" using i(4) n mp by simp
    ultimately have "u_key (kvs h ! i) \<in> set (mapped_keys s)" unfolding mk by auto
    then show "\<exists>x\<in>set (mapped_keys s). equals_func s x k" using i(3) by blast
  qed
qed

lemma wf_new:
  assumes "good_funcs (hashmap_new equals hash fresh now)"
  shows "well_formed (hashmap_new equals hash fresh now)"
    and "mapping (hashmap_new equals hash fresh now) k = Null"
proof -
  let ?s = "hashmap_new equals hash fresh now"
  define h where "h = \<lparr>u_btodo = 0, len = 4, prev = 0, u_bdone = 0,
                         kvs = replicate 4 zero_entry\<rparr>"
  have hh: "heap ?s (u_kvs ?s) = Some h"
    by (simp add: hashmap_new_def h_def INITIAL_SIZE_def bzero_def)
  have "len h = 2 ^ 2" "(2::nat) \<le> 31" "kvs h = replicate (len h) zero_entry"
    by (simp_all add: h_def)
  then have t: "table_ok ?s h" by (rule table_ok_empty)
  have lv: "live (kvs h) = 0" using live_empty[of 4] by (simp add: h_def)
  have f: "u_nkvs ?s = 0" "u_kvs ?s = 2" "brk ?s = 3" "u_size ?s = 0"
    "\<forall>a\<ge>brk ?s. heap ?s a = None"
    by (simp_all add: hashmap_new_def)
  show "well_formed ?s"
    unfolding well_formed_def using assms hh t lv f by auto
  show "mapping ?s k = Null"
    using mapping_cur[OF hh, of k] lookup_empty[of ?s 4 k] by (simp add: h_def)
qed

lemma reach_wf:
  assumes "reach V s"
  shows "well_formed s \<and> (\<forall>k. mapping s k = Null \<or> mapping s k \<in> V) \<and> (\<forall>v\<in>V. user_ptr v)"
  using assms
proof (induction rule: reach.induct)
  case (new equals hash fresh now)
  then show ?case using wf_new[of equals hash fresh now] by simp
next
  case (get V s key r s')
  then have "s' = s" using get_wf[of s key] by simp
  then show ?case using get.IH by simp
next
  case (putif V s key val oldval r s')
  then have w: "well_formed s" by simp
  from putif_run[OF w putif.hyps(2,3,4), of oldval] putif.hyps(5)
  have p: "putif_post s key val oldval r s'" by auto
  have "well_formed s'" using p by (simp add: putif_post_def)
  moreover have "mapping s' k = Null \<or> mapping s' k \<in> insert val V" for k
    using p putif.IH unfolding putif_post_def by auto
  moreover have "\<forall>v\<in>insert val V. user_ptr v" using putif.IH putif.hyps(4) by simp
  ultimately show ?case by blast
qed





lemma reach_get:
  assumes "reach V s"
  shows "hashmap_get s key = Some (Inr (mapping s key, s))"
  using reach_wf[OF assms] get_wf[of s key] by simp

lemma reach_putif:
  assumes "reach V s" "key \<noteq> Null" "user_ptr key" "user_ptr val"
  shows "(hashmap_putif s key val oldval = Some (Inl Abort) \<and> \<not> settles s key \<and> stuck s key) \<or>
         (\<exists>s'. hashmap_putif s key val oldval = Some (Inr (mapping s key, s')) \<and>
               putif_post s key val oldval (mapping s key) s' \<and> reach (insert val V) s')"
proof -
  have w: "well_formed s" using reach_wf[OF assms(1)] by simp
  from putif_run[OF w assms(2,3,4), of oldval] show ?thesis
  proof
    assume "hashmap_putif s key val oldval = Some (Inl Abort) \<and> \<not> settles s key \<and> stuck s key"
    then show ?thesis by simp
  next
    assume "\<exists>r s'. hashmap_putif s key val oldval = Some (Inr (r, s')) \<and>
                  putif_post s key val oldval r s'"
    then obtain r s' where rs: "hashmap_putif s key val oldval = Some (Inr (r, s'))"
      "putif_post s key val oldval r s'" by blast
    have r: "r = mapping s key" using rs(2) by (simp add: putif_post_def)
    have "reach (insert val V) s'" using assms rs(1) by (rule reach.putif)
    then show ?thesis using rs r by blast
  qed
qed

lemma demo_good: "good_funcs demo_map"
  unfolding good_funcs_def demo_map_def hashmap_new_def
  by (auto simp: demo_equals_def demo_hash_def split: ptr.splits)

lemma demo_reach: "reach {} demo_map"
  unfolding demo_map_def by (rule reach.new) (use demo_good in \<open>simp add: demo_map_def\<close>)

lemma demo_put:
  "map_option (map_sum id fst) (hashmap_putif demo_map (Addr 10) (Addr 1000) IGNORE) = Some (Inr Null)"
  by code_simp





lemma putif_match_write:
  assumes w: "well_formed s" and hh: "heap s (u_kvs s) = Some h" and k: "key \<noteq> Null"
    and D: "D < REPROBE_LIMIT" "\<forall>d'<D. \<not> rests s h key (pos h (key_hash s key) d')"
    and m: "u_key (kvs h ! pos h (key_hash s key) D) \<noteq> Null"
      "equals_func s (u_key (kvs h ! pos h (key_hash s key) D)) key"
    and ow: "oldval = IGNORE \<or> u_val (kvs h ! pos h (key_hash s key) D) = oldval"
  shows "u_putif s False (u_kvs s) key (key_hash s key) val oldval =
           Inr (u_val (kvs h ! pos h (key_hash s key) D),
                s\<lparr>heap := (heap s)(u_kvs s \<mapsto> h\<lparr>kvs := (kvs h)[pos h (key_hash s key) D :=
                                 (kvs h ! pos h (key_hash s key) D)\<lparr>u_val := val\<rparr>]\<rparr>),
                  u_size := u_size s
                     + (if u_val (kvs h ! pos h (key_hash s key) D) = Null \<and> val \<noteq> Null then 1 else 0)
                     - (if u_val (kvs h ! pos h (key_hash s key) D) \<noteq> Null \<and> val = Null then 1 else 0),
                  changes := changes s + 1,
                  freed := freed s @ [key]\<rparr>)"
proof -
  define a where "a = u_kvs s"
  define hash where "hash = key_hash s key"
  define p where "p = pos h hash D"
  from w hh obtain g: "good_funcs s" and t: "table_ok s h" and nk: "u_nkvs s = 0"
    by (auto elim!: wfD)
  have ha: "heap s a = Some h" using hh by (simp add: a_def)
  have sh: "shape h" using t by (rule table_shape)
  have pl: "p < len h" "p < length (kvs h)" using sh by (simp_all add: p_def pos_less shape_length)
  have hz: "hash \<noteq> 0" by (simp add: hash_def key_hash_nonzero)
  have D3: "\<forall>d'<D. \<not> rests s h key (pos h hash d')" using D(2) by (simp add: hash_def)
  have sk: "\<forall>d'<D. skips s h key hash (pos h hash d')"
    using D3 skips_iff[OF g t, of _ key] sh by (simp add: hash_def pos_less)
  have up: "unat ((nxt h ^^ D) (home h hash)) = p" using sh by (simp add: unat_walk p_def)
  have ul: "unat ((nxt h ^^ D) (home h hash)) < len h" using up pl by simp
  have pre: "putif_probe s False a key hash val oldval (home h hash) 0 =
             putif_probe s False a key hash val oldval ((nxt h ^^ D) (home h hash)) D"
    using probe_from_home[OF ha sh sk, of False val oldval] D(1) by simp
  have call: "u_putif s False a key hash val oldval =
        (case the_result (putif_probe s False a key hash val oldval ((nxt h ^^ D) (home h hash)) D) of
           Inl er \<Rightarrow> Inl er
         | Inr (Return r s1) \<Rightarrow> Inr (r, s1)
         | Inr Limit \<Rightarrow> u_resize s a
         | Inr (Break i m s1) \<Rightarrow> putif_update s1 False a i m key val oldval)"
    using ha k hz pre by (simp add: u_putif_def putif_with_def home_def)
  have so: "slot_ok s (kvs h ! p)" using t pl(1) by (rule table_slot)
  have kp: "u_key (kvs h ! p) \<noteq> Null" "equals_func s (u_key (kvs h ! p)) key"
    using m by (simp_all add: p_def hash_def)
  have D2: "rests s h key p" using kp(2) by (simp add: rests_def)
  note mm = rests_match[OF g t pl(1) D2 kp(1)]
  have "user_ptr (u_val (kvs h ! p))" using so kp(1) by (simp add: slot_ok_def)
  then have ns: "u_val (kvs h ! p) \<noteq> SIZED" by (simp add: user_ptr_def)
  have "putif_probe s False a key hash val oldval ((nxt h ^^ D) (home h hash)) D =
            Some (Inr (Break p True s))"
    using probe_match[OF ha sh ul, of hash key False val oldval D] kp mm(1) hz
      mm(2)[folded hash_def]
    by (simp add: up)
  then have c2: "u_putif s False a key hash val oldval = putif_update s False a p True key val oldval"
    using call by (simp add: the_result_def)
  have ow': "oldval = IGNORE \<or> u_val (kvs h ! p) = oldval" using ow by (simp add: p_def hash_def)
  show ?thesis
    using putif_update_write[OF ha ns nk, of oldval True key val] ow' c2
    by (simp add: a_def p_def hash_def)
qed

lemma free_keys_run:
  assumes "shape h" "n \<le> len h" "\<forall>i<n. u_key (kvs h ! i) \<noteq> SIZED"
  shows "free_keys s h n =
           Inr (s\<lparr>freed := freed s @ filter (\<lambda>k. k \<noteq> Null) (rev (map u_key (take n (kvs h))))\<rparr>)"
  using assms(2,3)
proof (induction n arbitrary: s)
  case 0
  show ?case by simp
next
  case (Suc n)
  from assms(1) obtain k where k: "k \<le> 31" "len h = 2 ^ k" by (auto simp: shape_def)
  have nl: "n < len h" "n < length (kvs h)" using Suc.prems(1) assms(1) by (simp_all add: shape_length)
  have "n < 2 ^ 32" using nl(1) pow_le_31[OF k(1)] k(2) by simp
  then have un: "unat (word_of_nat n :: 32 word) = n" by (simp add: unat_of_nat)
  have ld: "u_load h (word_of_nat n) = Inr n"
    using shape_load[OF assms(1), of "word_of_nat n"] un nl(1) by simp
  have ns: "u_key (kvs h ! n) \<noteq> SIZED" using Suc.prems(2) by simp
  have tk: "take (Suc n) (kvs h) = take n (kvs h) @ [kvs h ! n]"
    using nl(2) by (rule take_Suc_conv_app_nth)
  have ih: "free_keys t h n =
           Inr (t\<lparr>freed := freed t @ filter (\<lambda>k. k \<noteq> Null) (rev (map u_key (take n (kvs h))))\<rparr>)" for t
    using Suc.IH[of t] Suc.prems by simp
  show ?case
    using ld ns by (simp add: getkey_def ih tk free_func_def)
qed

lemma hashmap_free_run:
  assumes "well_formed s" "heap s (u_kvs s) = Some h"
  shows "\<exists>s3. hashmap_free s = Inr s3 \<and>
           freed s3 = freed s @ filter (\<lambda>k. k \<noteq> Null) (rev (map u_key (kvs h)))"
proof -
  from assms obtain t: "table_ok s h" by (auto elim!: wfD)
  have sh: "shape h" using t by (rule table_shape)
  have "\<forall>i<len h. u_key (kvs h ! i) \<noteq> SIZED"
  proof (intro allI impI)
    fix i assume "i < len h"
    then have "slot_ok s (kvs h ! i)" using t by (rule table_slot[rotated])
    then show "u_key (kvs h ! i) \<noteq> SIZED" by (auto simp: slot_ok_def user_ptr_def split: if_splits)
  qed
  then have "free_keys s h (len h) =
           Inr (s\<lparr>freed := freed s @ filter (\<lambda>k. k \<noteq> Null) (rev (map u_key (take (len h) (kvs h))))\<rparr>)"
    using sh by (intro free_keys_run) simp_all
  then show ?thesis
    using assms(2) sh by (simp add: hashmap_free_def free_kvs_def getkvs_def shape_length)
qed


section \<open>The properties of the public operations\<close>


text \<open>
  Claim C2. In a map reached from \<^verbatim>\<open>hashmap_new\<close> by any calls of \<^verbatim>\<open>hashmap_get\<close> and
  \<^verbatim>\<open>hashmap_putif\<close>, after \<^verbatim>\<open>hashmap_putif(map, key, val, IGNORE)\<close> has returned,
  \<^verbatim>\<open>hashmap_get\<close> returns \<open>val\<close> for the key and for every key equal to it. The put
  terminates; it ends in the failed \<^verbatim>\<open>assert(nkvs->len)\<close> only when the probe for the key
  finds no rest within the reprobe limit in a table of \<open>2^31\<close> slots.
\<close>

theorem put_get:
  assumes "reach V s" "key \<noteq> Null" "user_ptr key" "user_ptr val"
  shows "(hashmap_putif s key val IGNORE = Some (Inl Abort) \<and> \<not> settles s key \<and> stuck s key) \<or>
         (\<exists>r s'. hashmap_putif s key val IGNORE = Some (Inr (r, s')) \<and>
                 hashmap_get s' key = Some (Inr (val, s')) \<and>
                 (\<forall>k. equals_func s key k \<longrightarrow> hashmap_get s' k = Some (Inr (val, s'))))"
proof -
  from reach_putif[OF assms, of IGNORE] show ?thesis
  proof
    assume "hashmap_putif s key val IGNORE = Some (Inl Abort) \<and> \<not> settles s key \<and> stuck s key"
    then show ?thesis by simp
  next
    assume "\<exists>s'. hashmap_putif s key val IGNORE = Some (Inr (mapping s key, s')) \<and>
               putif_post s key val IGNORE (mapping s key) s' \<and> reach (insert val V) s'"
    then obtain s' where s': "hashmap_putif s key val IGNORE = Some (Inr (mapping s key, s'))"
      "putif_post s key val IGNORE (mapping s key) s'" "reach (insert val V) s'" by blast
    have "good_funcs s" using reach_wf[OF assms(1)] by (auto elim: wfD)
    then have "equals_func s key key" by (rule good_refl)
    then have "hashmap_get s' key = Some (Inr (val, s'))"
      using reach_get[OF s'(3), of key] s'(2) by (simp add: putif_post_def)
    moreover have "\<forall>k. equals_func s key k \<longrightarrow> hashmap_get s' k = Some (Inr (val, s'))"
      using reach_get[OF s'(3)] s'(2) by (simp add: putif_post_def)
    ultimately show ?thesis using s'(1) by blast
  qed
qed

text \<open>
  Claim C3. The key of a conditional update that finds an equal key in the table and a
  value other than \<open>oldval\<close> is neither stored nor passed to the destructor. On a new map,
  \<^verbatim>\<open>putif(Addr 10, Addr 1000, IGNORE)\<close> returns 0 and \<^verbatim>\<open>putif(Addr 11, Addr 1001, Addr 1002)\<close>,
  whose key equals the first, returns the current value \<open>Addr 1000\<close>; no destructor call
  has happened then, and \<^verbatim>\<open>hashmap_free\<close> destroys \<open>Addr 10\<close> only: the key \<open>Addr 11\<close> is
  never destroyed.
\<close>

theorem mismatch_leaks_key:
  "(case run_putifs demo_map [(Addr 10, Addr 1000, IGNORE), (Addr 11, Addr 1001, Addr 1002)] of
      Some (Inr (rs, s)) \<Rightarrow>
        (case hashmap_free s of Inr s' \<Rightarrow> Some (rs, freed s, freed s') | Inl er \<Rightarrow> None)
    | _ \<Rightarrow> None)
   = Some ([Null, Addr 1000], [], [Addr 10])"
  by code_simp


text \<open>
  Claim C5. In a map reached from \<^verbatim>\<open>hashmap_new\<close> by calls of \<^verbatim>\<open>hashmap_get\<close> and
  \<^verbatim>\<open>hashmap_putif\<close>, \<^verbatim>\<open>hashmap_size\<close> is the number of the keys stored with a value other
  than 0; these keys are pairwise not equal, and a key is mapped to a value other than 0
  exactly when it equals one of them. A \<^verbatim>\<open>hashmap_putif\<close> that returns adds 1 to the size
  when the value of its key goes from 0 to non-zero, subtracts 1 when it goes from
  non-zero to 0, and leaves the size as it is otherwise.
\<close>

theorem size_counts:
  assumes "reach V s"
  shows "hashmap_size s = int (length (mapped_keys s)) \<and>
         apart (equals_func s) (mapped_keys s) \<and>
         (\<forall>k. mapping s k \<noteq> Null \<longleftrightarrow> (\<exists>x\<in>set (mapped_keys s). equals_func s x k)) \<and>
         (key \<noteq> Null \<and> user_ptr key \<and> user_ptr val \<longrightarrow>
            (hashmap_putif s key val oldval = Some (Inl Abort) \<and> \<not> settles s key \<and> stuck s key) \<or>
            (\<exists>s'. hashmap_putif s key val oldval = Some (Inr (mapping s key, s')) \<and>
               hashmap_size s' = hashmap_size s
                 + (if mapping s key = Null \<and> mapping s' key \<noteq> Null then 1 else 0)
                 - (if mapping s key \<noteq> Null \<and> mapping s' key = Null then 1 else 0)))"
proof -
  have w: "well_formed s" using reach_wf[OF assms] by simp
  have a: "hashmap_size s = int (length (mapped_keys s))"
    using size_live[OF w] by (simp add: live_count_keys)
  have d: "hashmap_size s' = hashmap_size s
                 + (if mapping s key = Null \<and> mapping s' key \<noteq> Null then 1 else 0)
                 - (if mapping s key \<noteq> Null \<and> mapping s' key = Null then 1 else 0)"
    if pp: "putif_post s key val oldval r s'" for r s'
  proof -
    from pp have w': "well_formed s'" and l: "live_count s' + (if mapping s key \<noteq> Null then 1 else 0) =
        live_count s + (if mapping s' key \<noteq> Null then 1 else 0)"
      by (simp_all add: putif_post_def)
    have "int (live_count s') + (if mapping s key \<noteq> Null then 1 else 0) =
          int (live_count s) + (if mapping s' key \<noteq> Null then 1 else 0)"
      using l by (simp split: if_splits)
    then show ?thesis using size_live[OF w] size_live[OF w'] by (simp split: if_splits)
  qed
  have p: "(hashmap_putif s key val oldval = Some (Inl Abort) \<and> \<not> settles s key \<and> stuck s key) \<or>
            (\<exists>s'. hashmap_putif s key val oldval = Some (Inr (mapping s key, s')) \<and>
               hashmap_size s' = hashmap_size s
                 + (if mapping s key = Null \<and> mapping s' key \<noteq> Null then 1 else 0)
                 - (if mapping s key \<noteq> Null \<and> mapping s' key = Null then 1 else 0))"
    if k: "key \<noteq> Null \<and> user_ptr key \<and> user_ptr val"
  proof -
    from k have k': "key \<noteq> Null" "user_ptr key" "user_ptr val" by simp_all
    from reach_putif[OF assms k', of oldval] show ?thesis
    proof
      assume "hashmap_putif s key val oldval = Some (Inl Abort) \<and> \<not> settles s key \<and> stuck s key"
      then show ?thesis by (rule disjI1)
    next
      assume "\<exists>s'. hashmap_putif s key val oldval = Some (Inr (mapping s key, s')) \<and>
               putif_post s key val oldval (mapping s key) s' \<and> reach (insert val V) s'"
      then obtain s' where s': "hashmap_putif s key val oldval = Some (Inr (mapping s key, s'))"
        "putif_post s key val oldval (mapping s key) s'" by blast
      show ?thesis using s'(1) d[OF s'(2)] by (intro disjI2 exI[of _ s'] conjI)
    qed
  qed
  have p': "key \<noteq> Null \<and> user_ptr key \<and> user_ptr val \<longrightarrow>
            (hashmap_putif s key val oldval = Some (Inl Abort) \<and> \<not> settles s key \<and> stuck s key) \<or>
            (\<exists>s'. hashmap_putif s key val oldval = Some (Inr (mapping s key, s')) \<and>
               hashmap_size s' = hashmap_size s
                 + (if mapping s key = Null \<and> mapping s' key \<noteq> Null then 1 else 0)
                 - (if mapping s key \<noteq> Null \<and> mapping s' key = Null then 1 else 0))"
    using p by (rule impI)
  have m: "\<forall>k. mapping s k \<noteq> Null \<longleftrightarrow> (\<exists>x\<in>set (mapped_keys s). equals_func s x k)"
    using mapped_iff[OF w] by simp
  show ?thesis by (intro conjI a mapped_apart[OF w] m p')
qed


text \<open>
  Claim C10. A \<^verbatim>\<open>_putif\<close> outside resize-copy mode with a non-zero \<open>val\<close> and an \<open>oldval\<close>
  that is neither \<^verbatim>\<open>IGNORE\<close> nor 0, for a key whose probe sequence reaches a free
  (zeroed) slot after \<open>d\<close> steps, \<open>d\<close> below the reprobe limit: the call returns 0, and
  so does \<^verbatim>\<open>hashmap_putif\<close> on the current table; the only change of the state is that
  the free slot now holds the caller's key, its hash and the value 0; \<^verbatim>\<open>_get\<close> of the key
  returns 0 before and after; the size is the same and the destructor was not called.
  On a well-formed map the absorbed key then stays in its slot: a later update through
  an equal key writes the value into that slot and passes the later caller's key to the
  destructor, not the absorbed one. The absorbed key goes to the destructor in
  \<^verbatim>\<open>hashmap_free\<close>, or in the next resize if its value is still 0 then.
\<close>

theorem putif_absent_mismatch:
  assumes "heap s a = Some h" "shape h" "key \<noteq> Null" "key \<noteq> SIZED" "hash \<noteq> 0"
    "equals_func s key key" "val \<noteq> Null" "oldval \<noteq> IGNORE" "oldval \<noteq> Null"
    "d < REPROBE_LIMIT" "\<forall>d'<d. skips s h key hash (pos h hash d')"
    "u_key (kvs h ! pos h hash d) = Null" "u_val (kvs h ! pos h hash d) = Null"
  shows "\<exists>s'. u_putif s False a key hash val oldval = Inr (Null, s') \<and>
           (a = getkvs s \<and> hash = key_hash s key \<longrightarrow>
              hashmap_putif s key val oldval = Some (Inr (Null, s'))) \<and>
           s' = s\<lparr>heap := (heap s)(a \<mapsto> h\<lparr>kvs := (kvs h)[pos h hash d :=
                        \<lparr>u_key = key, u_val = Null, u_hash = hash\<rparr>]\<rparr>)\<rparr> \<and>
           u_get s a key hash = Inr Null \<and> u_get s' a key hash = Inr Null \<and>
           hashmap_size s' = hashmap_size s \<and> freed s' = freed s \<and>
           (well_formed s \<and> a = getkvs s \<and> hash = key_hash s key \<and> user_ptr key \<and> user_ptr val \<longrightarrow>
              well_formed s' \<and>
              (\<forall>key2 val2. key2 \<noteq> Null \<and> user_ptr key2 \<and> user_ptr val2 \<and> equals_func s key key2 \<longrightarrow>
                 (\<exists>s2 h2. hashmap_putif s' key2 val2 IGNORE = Some (Inr (Null, s2)) \<and>
                    freed s2 = freed s @ [key2] \<and> heap s2 a = Some h2 \<and>
                    u_key (kvs h2 ! pos h hash d) = key \<and> u_val (kvs h2 ! pos h hash d) = val2)) \<and>
              (\<exists>s3. hashmap_free s' = Inr s3 \<and> key \<in> set (freed s3) \<and>
                 freed s3 = freed s @ filter (\<lambda>k. k \<noteq> Null)
                    (rev (map u_key ((kvs h)[pos h hash d :=
                        \<lparr>u_key = key, u_val = Null, u_hash = hash\<rparr>])))) \<and>
              (resize_len (changes s) (sint (word_of_int (hashmap_size s) :: 32 word))
                   (word_of_nat (len h)) \<noteq> 0 \<longrightarrow>
                 (\<exists>s4. u_resize s' a = Inr (SIZED, s4) \<and> key \<in> set (freed s4))))"
proof -
  define p where "p = pos h hash d"
  define h' where "h' = h\<lparr>kvs := (kvs h)[p := \<lparr>u_key = key, u_val = Null, u_hash = hash\<rparr>]\<rparr>"
  define s' where "s' = s\<lparr>heap := (heap s)(a \<mapsto> h')\<rparr>"
  from absent_mismatch_run[OF assms]
  have old: "u_putif s False a key hash val oldval = Inr (Null, s')"
    "a = getkvs s \<and> hash = key_hash s key \<longrightarrow> hashmap_putif s key val oldval = Some (Inr (Null, s'))"
    "u_get s a key hash = Inr Null" "u_get s' a key hash = Inr Null"
    "hashmap_size s' = hashmap_size s" "freed s' = freed s"
    unfolding s'_def h'_def p_def by auto
  have pl: "p < len h" "p < length (kvs h)"
    using assms(2) by (simp_all add: p_def pos_less shape_length)
  have ep: "kvs h' ! p = \<lparr>u_key = key, u_val = Null, u_hash = hash\<rparr>"
    using pl by (simp add: h'_def)
  have new: "well_formed s' \<and>
              (\<forall>key2 val2. key2 \<noteq> Null \<and> user_ptr key2 \<and> user_ptr val2 \<and> equals_func s key key2 \<longrightarrow>
                 (\<exists>s2 h2. hashmap_putif s' key2 val2 IGNORE = Some (Inr (Null, s2)) \<and>
                    freed s2 = freed s @ [key2] \<and> heap s2 a = Some h2 \<and>
                    u_key (kvs h2 ! p) = key \<and> u_val (kvs h2 ! p) = val2)) \<and>
              (\<exists>s3. hashmap_free s' = Inr s3 \<and> key \<in> set (freed s3) \<and>
                 freed s3 = freed s @ filter (\<lambda>k. k \<noteq> Null)
                    (rev (map u_key ((kvs h)[p := \<lparr>u_key = key, u_val = Null, u_hash = hash\<rparr>])))) \<and>
              (resize_len (changes s) (sint (word_of_int (hashmap_size s) :: 32 word))
                   (word_of_nat (len h)) \<noteq> 0 \<longrightarrow>
                 (\<exists>s4. u_resize s' a = Inr (SIZED, s4) \<and> key \<in> set (freed s4)))"
    if W: "well_formed s \<and> a = getkvs s \<and> hash = key_hash s key \<and> user_ptr key \<and> user_ptr val"
  proof -
    have w: "well_formed s" and a: "a = u_kvs s" and hk: "hash = key_hash s key"
      and ku: "user_ptr key" and vu: "user_ptr val"
      using W by (simp_all add: getkvs_def)
    have hh: "heap s (u_kvs s) = Some h" using assms(1) a by simp
    from w hh obtain g: "good_funcs s" and t: "table_ok s h" by (auto elim!: wfD)
    have nr: "\<forall>d'<d. \<not> rests s h key (pos h (key_hash s key) d')"
      using assms(11) skips_iff[OF g t, of _ key] assms(2) by (simp add: hk pos_less)
    have rs: "rests s h key (pos h (key_hash s key) d)"
      using assms(12) by (simp add: rests_def hk)
    from putif_settles[OF w hh assms(3) ku vu assms(10) rs nr, of oldval] old(1)
    have w': "well_formed s'" by (auto simp: a hk)
    have e: "equals_func s' = equals_func s" "hash_func s' = hash_func s" by (simp_all add: s'_def)
    have hh': "heap s' (u_kvs s') = Some h'" by (simp add: s'_def a)
    have pos': "pos h' = pos h" by (simp add: h'_def)
    note fb = free_before_limit[OF assms(2,11,12)]
    have sup: "\<exists>s2 h2. hashmap_putif s' key2 val2 IGNORE = Some (Inr (Null, s2)) \<and>
                    freed s2 = freed s @ [key2] \<and> heap s2 a = Some h2 \<and>
                    u_key (kvs h2 ! p) = key \<and> u_val (kvs h2 ! p) = val2"
      if k2: "key2 \<noteq> Null \<and> user_ptr key2 \<and> user_ptr val2 \<and> equals_func s key key2"
      for key2 val2
    proof -
      have eq: "equals_func s key key2" and kn2: "key2 \<noteq> Null" using k2 by simp_all
      have kh: "key_hash s' key2 = hash"
        using key_hash_equal[OF g eq] by (simp add: hk key_hash_funcs[OF e(2)])
      have nr2: "\<forall>d'<d. \<not> rests s' h' key2 (pos h' (key_hash s' key2) d')"
      proof (intro allI impI notI)
        fix d' assume d': "d' < d" and r: "rests s' h' key2 (pos h' (key_hash s' key2) d')"
        have ne: "pos h hash d' \<noteq> p" using fb(2) d' by (simp add: p_def)
        then have same: "kvs h' ! pos h hash d' = kvs h ! pos h hash d'" by (simp add: h'_def)
        have occ: "u_key (kvs h ! pos h hash d') \<noteq> Null"
          using assms(11) d' by (simp add: skips_def Let_def)
        have "equals_func s (u_key (kvs h ! pos h hash d')) key2"
          using r occ by (simp add: rests_def kh pos' same e)
        then have "equals_func s (u_key (kvs h ! pos h hash d')) key"
          using good_trans[OF g _ good_sym[OF g eq]] by blast
        then have "rests s h key (pos h hash d')" by (simp add: rests_def)
        then show False using nr d' by (simp add: hk)
      qed
      have m1: "u_key (kvs h' ! pos h' (key_hash s' key2) d) \<noteq> Null"
        using ep assms(3) by (simp add: kh pos' p_def[symmetric])
      have m2: "equals_func s' (u_key (kvs h' ! pos h' (key_hash s' key2) d)) key2"
        using ep eq by (simp add: kh pos' p_def[symmetric] e)
      have vp: "u_val (kvs h' ! pos h' (key_hash s' key2) d) = Null"
        using ep by (simp add: kh pos' p_def[symmetric])
      define s2 where "s2 = s'\<lparr>heap := (heap s')(u_kvs s' \<mapsto> h'\<lparr>kvs := (kvs h')[p :=
                                 (kvs h' ! p)\<lparr>u_val := val2\<rparr>]\<rparr>),
                  u_size := u_size s'
                     + (if u_val (kvs h' ! p) = Null \<and> val2 \<noteq> Null then 1 else 0)
                     - (if u_val (kvs h' ! p) \<noteq> Null \<and> val2 = Null then 1 else 0),
                  changes := changes s' + 1,
                  freed := freed s' @ [key2]\<rparr>"
      have "u_putif s' False (u_kvs s') key2 (key_hash s' key2) val2 IGNORE = Inr (Null, s2)"
        using putif_match_write[OF w' hh' kn2 assms(10) nr2 m1 m2, of IGNORE val2] vp
        by (simp add: s2_def kh pos' p_def[symmetric])
      then have "hashmap_putif s' key2 val2 IGNORE = Some (Inr (Null, s2))"
        by (intro hashmap_putif_direct) (simp_all add: getkvs_def)
      moreover have "freed s2 = freed s @ [key2]" by (simp add: s2_def s'_def)
      moreover have "heap s2 a = Some (h'\<lparr>kvs := (kvs h')[p := (kvs h' ! p)\<lparr>u_val := val2\<rparr>]\<rparr>)"
        by (simp add: s2_def s'_def a)
      moreover have "u_key (kvs (h'\<lparr>kvs := (kvs h')[p := (kvs h' ! p)\<lparr>u_val := val2\<rparr>]\<rparr>) ! p) = key"
        "u_val (kvs (h'\<lparr>kvs := (kvs h')[p := (kvs h' ! p)\<lparr>u_val := val2\<rparr>]\<rparr>) ! p) = val2"
        using pl ep by (simp_all add: h'_def)
      ultimately show ?thesis by blast
    qed
    have kin: "key \<in> set (map u_key (kvs h'))"
    proof -
      have "kvs h' ! p \<in> set (kvs h')" using pl by (intro nth_mem) (simp add: h'_def)
      then have "u_key (kvs h' ! p) \<in> set (map u_key (kvs h'))" by simp
      then show ?thesis by (simp add: ep)
    qed
    from hashmap_free_run[OF w' hh'] obtain s3 where s3: "hashmap_free s' = Inr s3"
      "freed s3 = freed s' @ filter (\<lambda>k. k \<noteq> Null) (rev (map u_key (kvs h')))" by blast
    have "key \<in> set (freed s3)" using s3(2) kin assms(3) by simp
    moreover have "freed s3 = freed s @ filter (\<lambda>k. k \<noteq> Null)
                    (rev (map u_key ((kvs h)[p := \<lparr>u_key = key, u_val = Null, u_hash = hash\<rparr>])))"
      using s3(2) old(6) by (simp add: h'_def)
    ultimately have fr: "\<exists>s3. hashmap_free s' = Inr s3 \<and> key \<in> set (freed s3) \<and>
                 freed s3 = freed s @ filter (\<lambda>k. k \<noteq> Null)
                    (rev (map u_key ((kvs h)[p := \<lparr>u_key = key, u_val = Null, u_hash = hash\<rparr>])))"
      using s3(1) by blast
    have rz: "\<exists>s4. u_resize s' a = Inr (SIZED, s4) \<and> key \<in> set (freed s4)"
      if nz: "resize_len (changes s) (sint (word_of_int (hashmap_size s) :: 32 word))
                   (word_of_nat (len h)) \<noteq> 0"
    proof -
      define N where "N = resize_len (changes s') (sint (word_of_int (hashmap_size s') :: 32 word))
                   (word_of_nat (len h'))"
      have "N \<noteq> 0" using nz old(5) by (simp add: N_def s'_def h'_def)
      then have n0: "unat N \<noteq> 0" by (simp add: unat_eq_0)
      from resize_run[OF w' hh' N_def n0] obtain s4 where s4:
        "u_resize s' (u_kvs s') = Inr (SIZED, s4)"
        "freed s4 = freed s' @ map u_key (filter tomb (kvs h'))" by blast
      have "kvs h' ! p \<in> set (kvs h')" using pl by (intro nth_mem) (simp add: h'_def)
      moreover have "tomb (kvs h' ! p)" using ep assms(3) by (simp add: tomb_def)
      ultimately have "kvs h' ! p \<in> set (filter tomb (kvs h'))" by simp
      then have "u_key (kvs h' ! p) \<in> set (map u_key (filter tomb (kvs h')))"
        by simp
      then have "key \<in> set (freed s4)" using s4(2) ep by simp
      then show ?thesis using s4(1) by (auto simp: s'_def a)
    qed
    have rz': "resize_len (changes s) (sint (word_of_int (hashmap_size s) :: 32 word))
                   (word_of_nat (len h)) \<noteq> 0 \<longrightarrow>
                 (\<exists>s4. u_resize s' a = Inr (SIZED, s4) \<and> key \<in> set (freed s4))"
      using rz by (rule impI)
    have sup': "\<forall>key2 val2. key2 \<noteq> Null \<and> user_ptr key2 \<and> user_ptr val2 \<and> equals_func s key key2 \<longrightarrow>
                 (\<exists>s2 h2. hashmap_putif s' key2 val2 IGNORE = Some (Inr (Null, s2)) \<and>
                    freed s2 = freed s @ [key2] \<and> heap s2 a = Some h2 \<and>
                    u_key (kvs h2 ! p) = key \<and> u_val (kvs h2 ! p) = val2)"
      using sup by (intro allI impI)
    show ?thesis by (intro conjI w' sup' fr rz')
  qed
  show ?thesis
  proof (intro exI[of _ s'] conjI)
    show "s' = s\<lparr>heap := (heap s)(a \<mapsto> h\<lparr>kvs := (kvs h)[pos h hash d :=
                        \<lparr>u_key = key, u_val = Null, u_hash = hash\<rparr>]\<rparr>)\<rparr>"
      by (simp add: s'_def h'_def p_def)
    show "well_formed s \<and> a = getkvs s \<and> hash = key_hash s key \<and> user_ptr key \<and> user_ptr val \<longrightarrow>
              well_formed s' \<and>
              (\<forall>key2 val2. key2 \<noteq> Null \<and> user_ptr key2 \<and> user_ptr val2 \<and> equals_func s key key2 \<longrightarrow>
                 (\<exists>s2 h2. hashmap_putif s' key2 val2 IGNORE = Some (Inr (Null, s2)) \<and>
                    freed s2 = freed s @ [key2] \<and> heap s2 a = Some h2 \<and>
                    u_key (kvs h2 ! pos h hash d) = key \<and> u_val (kvs h2 ! pos h hash d) = val2)) \<and>
              (\<exists>s3. hashmap_free s' = Inr s3 \<and> key \<in> set (freed s3) \<and>
                 freed s3 = freed s @ filter (\<lambda>k. k \<noteq> Null)
                    (rev (map u_key ((kvs h)[pos h hash d :=
                        \<lparr>u_key = key, u_val = Null, u_hash = hash\<rparr>])))) \<and>
              (resize_len (changes s) (sint (word_of_int (hashmap_size s) :: 32 word))
                   (word_of_nat (len h)) \<noteq> 0 \<longrightarrow>
                 (\<exists>s4. u_resize s' a = Inr (SIZED, s4) \<and> key \<in> set (freed s4)))"
      using new[unfolded p_def] by (rule impI)
  qed (rule old)+
qed


section \<open>The properties on the sample maps\<close>

lemma shape_half_table: "shape half_table"
  unfolding shape_def by (rule conjI, simp add: half_table_def, rule exI[of _ 2], simp add: half_table_def)

lemma shape_full_table: "shape full_table"
  unfolding shape_def by (rule conjI, simp add: full_table_def, rule exI[of _ 2], simp add: full_table_def)

lemma less_4_cases: "p < 4 \<Longrightarrow> p = 0 \<or> p = 1 \<or> p = 2 \<or> p = (3::nat)"
  by arith

lemma full_table_skips: "p < 4 \<Longrightarrow> skips full_map full_table (Addr 170) 17 p"
  by (auto dest!: less_4_cases
      simp: skips_def full_table_def full_map_def demo_map_def hashmap_new_def demo_equals_def)

lemma full_pos_less: "pos full_table hash d < 4"
  by (simp add: pos_def full_table_def)

lemma half_table_skips: "d < 2 \<Longrightarrow> skips half_map half_table key 9 (pos half_table 9 d)"
proof -
  assume "d < 2"
  then have "d = 0 \<or> d = 1" by arith
  then show ?thesis
    by (auto simp: skips_def pos_def half_table_def half_map_def demo_map_def hashmap_new_def
        demo_equals_def)
qed

theorem get_full_circle_witness:
  "u_get full_map 2 (Addr 170) 17 = Inr Null \<and>
   get_probes full_map 2 (Addr 170) 17 = [1, 2, 3, 0]"
proof -
  have h1: "heap full_map 2 = Some full_table" by (simp add: full_map_def)
  have l: "len full_table = 4" by (simp add: full_table_def)
  have h3: "\<forall>p<len full_table. skips full_map full_table (Addr 170) 17 p"
    by (simp add: l full_table_skips)
  have m: "map (pos full_table 17) [0..<len full_table] = [1, 2, 3, 0]"
    by (simp add: pos_def l upt_rec)
  from get_full_circle[OF h1 shape_full_table h3] show ?thesis by (simp only: m)
qed

theorem putif_delete_absent_witness:
  "u_putif half_map False 2 (Addr 90) 9 Null IGNORE = Inr (Null, free_func half_map (Addr 90)) \<and>
   hashmap_putif half_map (Addr 90) Null IGNORE = Some (Inr (Null, free_func half_map (Addr 90))) \<and>
   u_putif half_map True 2 (Addr 90) 9 Null IGNORE = Inr (DELETED, half_map)"
proof -
  have "heap half_map 2 = Some half_table" by (simp add: half_map_def)
  moreover have "\<forall>d'<2. skips half_map half_table (Addr 90) 9 (pos half_table 9 d')"
    by (simp add: half_table_skips)
  moreover have "u_key (kvs half_table ! pos half_table 9 2) = Null"
    by (simp add: pos_def half_table_def)
  moreover have "2 = getkvs half_map" "9 = key_hash half_map (Addr 90)"
    by (simp_all add: getkvs_def key_hash_def half_map_def demo_map_def hashmap_new_def demo_hash_def)
  ultimately show ?thesis
    using putif_delete_absent[of half_map 2 half_table "Addr 90" 9 IGNORE 2]
    by (simp add: shape_half_table REPROBE_LIMIT_def)
qed

























lemma less_4: "p < 4 \<Longrightarrow> p = 0 \<or> p = 1 \<or> p = 2 \<or> p = (3::nat)"
  by arith

lemma half_shape: "shape half_table"
  unfolding shape_def by (rule conjI, simp add: half_table_def, rule exI[of _ 2], simp add: half_table_def)

lemma half_funcs:
  "equals_func half_map = demo_equals" "hash_func half_map = demo_hash"
  "heap half_map 2 = Some half_table" "u_kvs half_map = 2" "u_nkvs half_map = 0"
  "brk half_map = 3" "u_size half_map = 2" "changes half_map = 2" "freed half_map = []"
  by (simp_all add: half_map_def demo_map_def hashmap_new_def)

lemma half_table_ok: "table_ok half_map half_table"
proof (rule table_okI)
  show "shape half_table" by (rule half_shape)
  show "slot_ok half_map (kvs half_table ! i)" if "i < len half_table" for i
  proof -
    have "i < 4" using that by (simp add: half_table_def)
    then show ?thesis
      by (auto dest!: less_4
          simp: slot_ok_def half_table_def user_ptr_def key_hash_def half_funcs demo_hash_def)
  qed
  show "chain_ok half_table"
  proof (rule chain_okI)
    fix i assume i: "i < len half_table" "u_key (kvs half_table ! i) \<noteq> Null"
    then have "i < 4" by (simp add: half_table_def)
    then have "i = 1 \<or> i = 2" using i(2) by (auto dest!: less_4 simp: half_table_def)
    then show "\<exists>d<len half_table. pos half_table (u_hash (kvs half_table ! i)) d = i \<and>
           (\<forall>d'<d. u_key (kvs half_table ! pos half_table (u_hash (kvs half_table ! i)) d') \<noteq> Null)"
    proof
      assume "i = 1"
      then show ?thesis by (intro exI[of _ 0]) (simp add: half_table_def pos_def)
    next
      assume "i = 2"
      then show ?thesis by (intro exI[of _ 1]) (simp add: half_table_def pos_def)
    qed
  qed
  show "unique_keys half_map half_table"
  proof (rule unique_keysI)
    fix i j assume a: "i < len half_table" "j < len half_table"
      "u_key (kvs half_table ! i) \<noteq> Null" "u_key (kvs half_table ! j) \<noteq> Null"
      "equals_func half_map (u_key (kvs half_table ! i)) (u_key (kvs half_table ! j))"
    have "i < 4" "j < 4" using a(1,2) by (simp_all add: half_table_def)
    then show "i = j"
      using a(3,4,5)
      by (auto dest!: less_4 simp: half_table_def half_funcs demo_equals_def)
  qed
qed

lemma half_wf: "well_formed half_map"
proof -
  have "good_funcs half_map"
    using demo_good good_funcs_funcs[of half_map demo_map]
    by (simp add: half_funcs demo_map_def hashmap_new_def)
  moreover have "\<forall>a\<ge>brk half_map. heap half_map a = None"
    by (simp add: half_map_def demo_map_def hashmap_new_def)
  moreover have "u_size half_map = word_of_nat (live (kvs half_table))"
    by (simp add: half_funcs live_def half_table_def)
  ultimately show ?thesis
    unfolding well_formed_def using half_table_ok half_funcs(3,4,5,6) by auto
qed

lemma half_skips: "d < 2 \<Longrightarrow> skips half_map half_table key 9 (pos half_table 9 d)"
proof -
  assume "d < 2"
  then have "d = 0 \<or> d = 1" by arith
  then show ?thesis
    by (auto simp: skips_def pos_def half_table_def half_map_def demo_map_def hashmap_new_def
        demo_equals_def)
qed

lemma half_size: "resize_len (changes half_map) (sint (word_of_int (hashmap_size half_map) :: 32 word))
    (word_of_nat (len half_table)) \<noteq> 0"
  by code_simp

theorem putif_absent_mismatch_witness:
  "\<exists>s'. hashmap_putif half_map (Addr 92) (Addr 1002) (Addr 1) = Some (Inr (Null, s')) \<and>
        s' = half_map\<lparr>heap := (heap half_map)(2 \<mapsto> half_table\<lparr>kvs := (kvs half_table)[3 :=
                        \<lparr>u_key = Addr 92, u_val = Null, u_hash = 9\<rparr>]\<rparr>)\<rparr> \<and>
        u_get half_map 2 (Addr 92) 9 = Inr Null \<and> u_get s' 2 (Addr 92) 9 = Inr Null \<and>
        hashmap_size s' = hashmap_size half_map \<and> freed s' = [] \<and> well_formed s' \<and>
        (\<exists>s2 h2. hashmap_putif s' (Addr 93) (Addr 1005) IGNORE = Some (Inr (Null, s2)) \<and>
             freed s2 = [Addr 93] \<and> heap s2 2 = Some h2 \<and>
             u_key (kvs h2 ! 3) = Addr 92 \<and> u_val (kvs h2 ! 3) = Addr 1005) \<and>
        (\<exists>s3. hashmap_free s' = Inr s3 \<and> freed s3 = [Addr 92, Addr 50, Addr 10]) \<and>
        (\<exists>s4. u_resize s' 2 = Inr (SIZED, s4) \<and> Addr 92 \<in> set (freed s4))"
proof -
  have sk: "\<forall>d'<2. skips half_map half_table (Addr 92) 9 (pos half_table 9 d')"
    by (simp add: half_skips)
  have f: "u_key (kvs half_table ! pos half_table 9 2) = Null"
     "u_val (kvs half_table ! pos half_table 9 2) = Null" "pos half_table 9 2 = 3"
    by (simp_all add: pos_def half_table_def)
  have c: "2 = getkvs half_map" "9 = key_hash half_map (Addr 92)"
    "equals_func half_map (Addr 92) (Addr 92)" "equals_func half_map (Addr 92) (Addr 93)"
    "user_ptr (Addr 92)" "user_ptr (Addr 1002)" "user_ptr (Addr 93)" "user_ptr (Addr 1005)"
    by (simp_all add: getkvs_def key_hash_def half_map_def demo_map_def hashmap_new_def
        demo_hash_def demo_equals_def user_ptr_def)
  have r: "rev (map u_key ((kvs half_table)[3 := \<lparr>u_key = Addr 92, u_val = Null, u_hash = 9\<rparr>]))
            = [Addr 92, Addr 50, Addr 10, Null]"
    by (simp add: half_table_def)
  from putif_absent_mismatch[OF half_funcs(3) half_shape _ _ _ c(3) _ _ _ _ sk f(1,2),
      of "Addr 1002" "Addr 1"]
  obtain s' where s':
    "hashmap_putif half_map (Addr 92) (Addr 1002) (Addr 1) = Some (Inr (Null, s'))"
    "s' = half_map\<lparr>heap := (heap half_map)(2 \<mapsto> half_table\<lparr>kvs := (kvs half_table)[3 :=
                        \<lparr>u_key = Addr 92, u_val = Null, u_hash = 9\<rparr>]\<rparr>)\<rparr>"
    "u_get half_map 2 (Addr 92) 9 = Inr Null" "u_get s' 2 (Addr 92) 9 = Inr Null"
    "hashmap_size s' = hashmap_size half_map" "freed s' = []" "well_formed s'"
    "\<forall>key2 val2. key2 \<noteq> Null \<and> user_ptr key2 \<and> user_ptr val2 \<and> equals_func half_map (Addr 92) key2 \<longrightarrow>
       (\<exists>s2 h2. hashmap_putif s' key2 val2 IGNORE = Some (Inr (Null, s2)) \<and>
            freed s2 = [] @ [key2] \<and> heap s2 2 = Some h2 \<and>
            u_key (kvs h2 ! 3) = Addr 92 \<and> u_val (kvs h2 ! 3) = val2)"
    "\<exists>s3. hashmap_free s' = Inr s3 \<and> Addr 92 \<in> set (freed s3) \<and>
        freed s3 = [] @ filter (\<lambda>k. k \<noteq> Null) [Addr 92, Addr 50, Addr 10, Null]"
    "\<exists>s4. u_resize s' 2 = Inr (SIZED, s4) \<and> Addr 92 \<in> set (freed s4)"
    using c half_wf half_size
    by (simp add: REPROBE_LIMIT_def f(3) half_funcs(9) r)
  have "\<exists>s2 h2. hashmap_putif s' (Addr 93) (Addr 1005) IGNORE = Some (Inr (Null, s2)) \<and>
             freed s2 = [Addr 93] \<and> heap s2 2 = Some h2 \<and>
             u_key (kvs h2 ! 3) = Addr 92 \<and> u_val (kvs h2 ! 3) = Addr 1005"
    using s'(8)[rule_format, of "Addr 93" "Addr 1005"] c by simp
  moreover have "\<exists>s3. hashmap_free s' = Inr s3 \<and> freed s3 = [Addr 92, Addr 50, Addr 10]"
    using s'(9) by auto
  ultimately show ?thesis using s'(1-7,10) by blast
qed

theorem putif_absent_mismatch_superseded:
  "map_option (map_sum id (\<lambda>(rs, s). (rs, freed s, map_option (\<lambda>h. map u_key (kvs h)) (heap s 2))))
     (run_putifs half_map [(Addr 92, Addr 1002, Addr 1), (Addr 93, Addr 1005, IGNORE)])
   = Some (Inr ([Null, Null], [Addr 93], Some [Null, Addr 10, Addr 50, Addr 92]))"
  by code_simp


theorem put_get_witness:
  "\<exists>s'. hashmap_putif demo_map (Addr 10) (Addr 1000) IGNORE = Some (Inr (Null, s')) \<and>
        hashmap_get s' (Addr 10) = Some (Inr (Addr 1000, s'))"
proof -
  have u: "user_ptr (Addr 10)" "user_ptr (Addr 1000)" by (simp_all add: user_ptr_def)
  from put_get[OF demo_reach _ u] demo_put show ?thesis by auto
qed


theorem size_counts_witness:
  "hashmap_size demo_map = 0 \<and> mapped_keys demo_map = [] \<and>
   (\<exists>s'. hashmap_putif demo_map (Addr 10) (Addr 1000) IGNORE = Some (Inr (Null, s')) \<and>
         hashmap_size s' = 1)"
proof -
  have m: "mapping demo_map k = Null" for k
    using wf_new(2)[of demo_equals demo_hash demo_junk 0 k] demo_good by (simp add: demo_map_def)
  have u: "Addr 10 \<noteq> Null" "user_ptr (Addr 10)" "user_ptr (Addr 1000)"
    by (simp_all add: user_ptr_def)
  have e: "equals_func demo_map (Addr 10) (Addr 10)"
    by (simp add: demo_map_def hashmap_new_def demo_equals_def)
  have k: "mapped_keys demo_map = []"
    by (simp add: mapped_keys_def getkvs_def demo_map_def hashmap_new_def bzero_def
        INITIAL_SIZE_def zero_entry_def)
  have n: "hashmap_putif demo_map (Addr 10) (Addr 1000) IGNORE \<noteq> Some (Inl Abort)"
    using demo_put by auto
  from reach_putif[OF demo_reach u, of IGNORE] n obtain s' where
    s': "hashmap_putif demo_map (Addr 10) (Addr 1000) IGNORE = Some (Inr (Null, s'))"
      "putif_post demo_map (Addr 10) (Addr 1000) IGNORE Null s'"
    by (auto simp: m)
  have ms: "mapping s' (Addr 10) = Addr 1000" using s'(2) e by (simp add: putif_post_def)
  from size_counts[OF demo_reach, of "Addr 10" "Addr 1000" IGNORE] s'(1) u
  have "hashmap_size demo_map = 0" "hashmap_size s' = 1"
    by (simp_all add: k m ms)
  then show ?thesis using k s'(1) by blast
qed


end
